theory Spec2Isabelle
  imports Main "HOL-Library.Word"
begin

unbundle bit_operations_syntax

section \<open>The protocol engine (NJU3711.h, NJU3711.cpp)\<close>

text \<open>
  The driver is a C++ class advanced by polling. Its fields become a record, its methods
  functions from the record to the updated record (with the returned value in front where
  the method returns one). The two platform primitives the class calls are made explicit:
  \<^item> \<open>micros()\<close> is the parameter \<open>now\<close> of every method that reads the clock; one call
    of a method sees one value of the clock;
  \<^item> \<open>digitalWrite(pin, level)\<close> updates the field \<open>pins\<close>, the level of every output
    line (\<open>True\<close> is HIGH).
  \<open>uint8_t\<close> is \<open>8 word\<close>, \<open>int8_t\<close> is \<open>8 word\<close> read with \<open>sint\<close>, \<open>unsigned long\<close> is \<open>32 word\<close>.
\<close>

datatype NJU3711_State =
    NJU3711_IDLE
  | NJU3711_SHIFTING
  | NJU3711_LATCHING
  | NJU3711_CLEARING
  | NJU3711_TEST_PATTERN

datatype NJU3711_Operation =
    NJU3711_OP_WRITE
  | NJU3711_OP_SHIFT_ONLY
  | NJU3711_OP_LATCH_ONLY
  | NJU3711_OP_CLEAR
  | NJU3711_OP_TEST_PATTERN

record OperationQueue =
  operation :: NJU3711_Operation
  data :: "8 word"
  valid :: bool

text \<open>
  \<open>latchStep\<close> and \<open>clearStep\<close> are the function-local statics of
  \<open>processStateMachine\<close>: they outlive the call, so they are part of the state.
  \<open>operationQueue\<close> is the array of 8 entries, a list whose length the invariant
  \<open>queue_wf\<close> below fixes.
\<close>

record NJU3711 =
  dataPin :: "8 word"
  clockPin :: "8 word"
  strobePin :: "8 word"
  clearPin :: "8 word"
  currentData :: "8 word"
  state :: NJU3711_State
  currentOperation :: NJU3711_Operation
  shiftData :: "8 word"
  bitIndex :: "8 word"
  lastUpdateTime :: "32 word"
  stepDelay :: "32 word"
  clockState :: bool
  testPatternStep :: "8 word"
  testPatternType :: "8 word"
  testPatternDelay :: "32 word"
  operationQueue :: "OperationQueue list"
  queueHead :: "8 word"
  queueTail :: "8 word"
  queueSize :: "8 word"
  latchStep :: bool
  clearStep :: bool
  pins :: "8 word \<Rightarrow> bool"

definition digitalWrite :: "8 word \<Rightarrow> bool \<Rightarrow> 'a NJU3711_scheme \<Rightarrow> 'a NJU3711_scheme" where
  "digitalWrite pin level s = s\<lparr>pins := (pins s)(pin := level)\<rparr>"

text \<open>
  The constructors assign some fields and leave the others (\<open>_currentOperation\<close>,
  \<open>_shiftData\<close>, \<open>_bitIndex\<close>, \<open>_lastUpdateTime\<close>, the queue entries, the pin levels and
  the two statics) as they find them: \<open>m\<close> is the storage the object is built in.
\<close>

definition NJU3711_ctor ::
  "8 word \<Rightarrow> 8 word \<Rightarrow> 8 word \<Rightarrow> 8 word \<Rightarrow> 'a NJU3711_scheme \<Rightarrow> 'a NJU3711_scheme" where
  "NJU3711_ctor dp cp sp clr m =
     m\<lparr>dataPin := dp, clockPin := cp, strobePin := sp, clearPin := clr,
       currentData := 0, state := NJU3711_IDLE, stepDelay := 1, clockState := False,
       queueHead := 0, queueTail := 0, queueSize := 0,
       testPatternStep := 0, testPatternType := 0, testPatternDelay := 500000\<rparr>"

definition NJU3711_ctor3 ::
  "8 word \<Rightarrow> 8 word \<Rightarrow> 8 word \<Rightarrow> 'a NJU3711_scheme \<Rightarrow> 'a NJU3711_scheme" where
  "NJU3711_ctor3 dp cp sp m =
     m\<lparr>dataPin := dp, clockPin := cp, strobePin := sp, clearPin := 255,
       currentData := 0, state := NJU3711_IDLE, stepDelay := 1, clockState := False,
       queueHead := 0, queueTail := 0, queueSize := 0,
       testPatternStep := 0, testPatternType := 0, testPatternDelay := 500000\<rparr>"

definition isBusy :: "'a NJU3711_scheme \<Rightarrow> bool" where
  "isBusy s \<longleftrightarrow> state s \<noteq> NJU3711_IDLE \<or> queueSize s > 0"

definition setStepDelay :: "32 word \<Rightarrow> 'a NJU3711_scheme \<Rightarrow> 'a NJU3711_scheme" where
  "setStepDelay delayMicros s = s\<lparr>stepDelay := delayMicros\<rparr>"

definition isTimingMet :: "32 word \<Rightarrow> 'a NJU3711_scheme \<Rightarrow> bool" where
  "isTimingMet now s \<longleftrightarrow> now - lastUpdateTime s \<ge> stepDelay s"

definition updateClock :: "32 word \<Rightarrow> bool \<Rightarrow> 'a NJU3711_scheme \<Rightarrow> 'a NJU3711_scheme" where
  "updateClock now st s =
     (if clockState s \<noteq> st
      then (digitalWrite (clockPin s) st s)\<lparr>clockState := st, lastUpdateTime := now\<rparr>
      else s)"

text \<open>
  The queue is a ring buffer. The index arithmetic is C's: the \<open>uint8_t\<close> index is
  promoted to \<open>int\<close>, incremented, reduced modulo 8 and stored back. An index of 8 or
  more is outside the array (undefined behaviour in the source); \<open>xs[i := v]\<close> leaves the
  list as it is there, and \<open>queue_wf\<close> excludes it.
\<close>

definition enqueueOperation ::
  "NJU3711_Operation \<Rightarrow> 8 word \<Rightarrow> 'a NJU3711_scheme \<Rightarrow> bool \<times> 'a NJU3711_scheme" where
  "enqueueOperation op d s =
     (if queueSize s \<ge> 8 then (False, s)
      else (True,
        s\<lparr>operationQueue := (operationQueue s)
              [unat (queueTail s) := \<lparr>operation = op, data = d, valid = True\<rparr>],
          queueTail := of_nat ((unat (queueTail s) + 1) mod 8),
          queueSize := queueSize s + 1\<rparr>))"

definition dequeueOperation ::
  "'a NJU3711_scheme \<Rightarrow> (NJU3711_Operation \<times> 8 word) option \<times> 'a NJU3711_scheme" where
  "dequeueOperation s =
     (if queueSize s = 0 then (None, s)
      else (Some (operation (operationQueue s ! unat (queueHead s)),
                  data (operationQueue s ! unat (queueHead s))),
        s\<lparr>operationQueue := (operationQueue s)
              [unat (queueHead s) := (operationQueue s ! unat (queueHead s))\<lparr>valid := False\<rparr>],
          queueHead := of_nat ((unat (queueHead s) + 1) mod 8),
          queueSize := queueSize s - 1\<rparr>))"

fun startOperation ::
  "NJU3711_Operation \<Rightarrow> 8 word \<Rightarrow> 'a NJU3711_scheme \<Rightarrow> 'a NJU3711_scheme" where
  "startOperation NJU3711_OP_WRITE d s =
     digitalWrite (strobePin s) True
       (s\<lparr>currentOperation := NJU3711_OP_WRITE, shiftData := d, currentData := d,
          bitIndex := 7, state := NJU3711_SHIFTING\<rparr>)"
| "startOperation NJU3711_OP_SHIFT_ONLY d s =
     digitalWrite (strobePin s) True
       (s\<lparr>currentOperation := NJU3711_OP_SHIFT_ONLY, shiftData := d, currentData := d,
          bitIndex := 7, state := NJU3711_SHIFTING\<rparr>)"
| "startOperation NJU3711_OP_LATCH_ONLY d s =
     s\<lparr>currentOperation := NJU3711_OP_LATCH_ONLY, state := NJU3711_LATCHING\<rparr>"
| "startOperation NJU3711_OP_CLEAR d s =
     s\<lparr>currentOperation := NJU3711_OP_CLEAR, state := NJU3711_CLEARING\<rparr>"
| "startOperation NJU3711_OP_TEST_PATTERN d s =
     s\<lparr>currentOperation := NJU3711_OP_TEST_PATTERN\<rparr>"

definition stopTestPattern :: "'a NJU3711_scheme \<Rightarrow> 'a NJU3711_scheme" where
  "stopTestPattern s =
     (if state s = NJU3711_TEST_PATTERN then s\<lparr>state := NJU3711_IDLE\<rparr> else s)"

definition NJU3711_write :: "8 word \<Rightarrow> 'a NJU3711_scheme \<Rightarrow> bool \<times> 'a NJU3711_scheme" where
  "NJU3711_write d s =
     enqueueOperation NJU3711_OP_WRITE d
       (if state s = NJU3711_TEST_PATTERN then stopTestPattern s else s)"

definition shift :: "8 word \<Rightarrow> 'a NJU3711_scheme \<Rightarrow> bool \<times> 'a NJU3711_scheme" where
  "shift d s =
     enqueueOperation NJU3711_OP_SHIFT_ONLY d
       (if state s = NJU3711_TEST_PATTERN then stopTestPattern s else s)"

text \<open>\<open>latch\<close> and \<open>clear\<close> enqueue with the default payload \<open>data = 0\<close>.\<close>

definition latch :: "'a NJU3711_scheme \<Rightarrow> bool \<times> 'a NJU3711_scheme" where
  "latch s =
     enqueueOperation NJU3711_OP_LATCH_ONLY 0
       (if state s = NJU3711_TEST_PATTERN then stopTestPattern s else s)"

definition clear :: "'a NJU3711_scheme \<Rightarrow> bool \<times> 'a NJU3711_scheme" where
  "clear s =
     enqueueOperation NJU3711_OP_CLEAR 0
       (if state s = NJU3711_TEST_PATTERN then stopTestPattern s else s)"

definition getCurrentData :: "'a NJU3711_scheme \<Rightarrow> 8 word" where
  "getCurrentData s = currentData s"

definition getQueueSize :: "'a NJU3711_scheme \<Rightarrow> 8 word" where
  "getQueueSize s = queueSize s"

definition clearQueue :: "'a NJU3711_scheme \<Rightarrow> 'a NJU3711_scheme" where
  "clearQueue s =
     s\<lparr>queueHead := 0, queueTail := 0, queueSize := 0,
       operationQueue :=
         map (\<lambda>i. if i < 8 then (operationQueue s ! i)\<lparr>valid := False\<rparr> else operationQueue s ! i)
           [0 ..< length (operationQueue s)]\<rparr>"

definition startTestPattern ::
  "32 word \<Rightarrow> 8 word \<Rightarrow> 32 word \<Rightarrow> 'a NJU3711_scheme \<Rightarrow> bool \<times> 'a NJU3711_scheme" where
  "startTestPattern now patternType patternDelay s =
     (if isBusy s then (False, s)
      else (True, s\<lparr>testPatternType := patternType, testPatternDelay := patternDelay,
                    testPatternStep := 0, state := NJU3711_TEST_PATTERN,
                    lastUpdateTime := now\<rparr>))"

text \<open>
  The test pattern branch of the state machine. Each pattern calls the public \<open>write\<close>
  and ignores its result; \<open>!_testPatternStep\<close> is 1 for a zero step and 0 otherwise;
  \<open>_testPatternStep++\<close> wraps at 256; \<open>1 << (step % 8)\<close> fits a byte.
\<close>

definition testPatternTick :: "32 word \<Rightarrow> 'a NJU3711_scheme \<Rightarrow> 'a NJU3711_scheme" where
  "testPatternTick now s =
     (if now - lastUpdateTime s \<ge> testPatternDelay s then
        (let s1 =
           (if testPatternType s = 1 then
              (snd (NJU3711_write (if testPatternStep s \<noteq> 0 then 0xFF else 0x00) s))
                \<lparr>testPatternStep := (if testPatternStep s = 0 then 1 else 0)\<rparr>
            else if testPatternType s = 2 then
              (snd (NJU3711_write (if testPatternStep s \<noteq> 0 then 0xAA else 0x55) s))
                \<lparr>testPatternStep := (if testPatternStep s = 0 then 1 else 0)\<rparr>
            else if testPatternType s = 3 then
              (snd (NJU3711_write (push_bit (unat (testPatternStep s) mod 8) 1) s))
                \<lparr>testPatternStep := testPatternStep s + 1\<rparr>
            else if testPatternType s = 4 then
              (snd (NJU3711_write (testPatternStep s) s))
                \<lparr>testPatternStep := testPatternStep s + 1\<rparr>
            else s)
         in s1\<lparr>lastUpdateTime := now\<rparr>)
      else s)"

text \<open>
  One call of \<open>processStateMachine\<close>. In the shifting branch the bit sent is bit
  \<open>_bitIndex\<close> of \<open>_shiftData\<close>; the source's shift by a negative \<open>_bitIndex\<close> is
  undefined, and the invariant \<open>engine_inv\<close> below keeps the index in 0..7 while shifting.
\<close>

definition processStateMachine :: "32 word \<Rightarrow> 'a NJU3711_scheme \<Rightarrow> 'a NJU3711_scheme" where
  "processStateMachine now s =
     (if \<not> isTimingMet now s then s
      else case state s of
        NJU3711_IDLE \<Rightarrow>
          (case dequeueOperation s of
             (Some (nextOp, nextData), s1) \<Rightarrow> startOperation nextOp nextData s1
           | (None, s1) \<Rightarrow> s1)
      | NJU3711_SHIFTING \<Rightarrow>
          (if clockState s = False then
             updateClock now True
               (digitalWrite (dataPin s) (bit (shiftData s) (nat (sint (bitIndex s)))) s)
           else
             (let s1 = (updateClock now False s)\<lparr>bitIndex := bitIndex s - 1\<rparr>
              in if sint (bitIndex s1) < 0 then
                   (if currentOperation s1 = NJU3711_OP_WRITE
                    then s1\<lparr>state := NJU3711_LATCHING\<rparr>
                    else s1\<lparr>state := NJU3711_IDLE\<rparr>)
                 else s1))
      | NJU3711_LATCHING \<Rightarrow>
          (if \<not> latchStep s then
             (digitalWrite (strobePin s) False s)\<lparr>latchStep := True, lastUpdateTime := now\<rparr>
           else
             (digitalWrite (strobePin s) True s)\<lparr>latchStep := False, state := NJU3711_IDLE\<rparr>)
      | NJU3711_CLEARING \<Rightarrow>
          (if clearPin s \<noteq> 255 then
             (if \<not> clearStep s then
                (digitalWrite (clearPin s) False s)\<lparr>clearStep := True, lastUpdateTime := now\<rparr>
              else
                (digitalWrite (clearPin s) True s)
                  \<lparr>clearStep := False, currentData := 0, state := NJU3711_IDLE\<rparr>)
           else
             (case enqueueOperation NJU3711_OP_WRITE 0x00 s of
                (True, s1) \<Rightarrow> s1\<lparr>currentData := 0, state := NJU3711_IDLE\<rparr>
              | (False, s1) \<Rightarrow> s1\<lparr>state := NJU3711_IDLE\<rparr>))
      | NJU3711_TEST_PATTERN \<Rightarrow> testPatternTick now s)"

definition update :: "32 word \<Rightarrow> 'a NJU3711_scheme \<Rightarrow> 'a NJU3711_scheme" where
  "update now s = processStateMachine now s"

text \<open>\<open>begin()\<close>: the pin levels are set, the clock is read, a clear is queued.\<close>

definition begin_NJU3711 :: "32 word \<Rightarrow> 'a NJU3711_scheme \<Rightarrow> 'a NJU3711_scheme" where
  "begin_NJU3711 now s =
     (let s1 = digitalWrite (dataPin s) False s;
          s2 = digitalWrite (clockPin s1) False s1;
          s3 = digitalWrite (strobePin s2) True s2;
          s4 = (if clearPin s3 \<noteq> 255 then digitalWrite (clearPin s3) True s3 else s3);
          s5 = s4\<lparr>lastUpdateTime := now, state := NJU3711_IDLE\<rparr>
      in snd (clear s5))"


section \<open>The single-digit display layer (NJU3711_7Segment.h, NJU3711_7Segment.cpp)\<close>

text \<open>
  \<open>NJU3711_7Segment\<close> derives from \<open>NJU3711\<close>: the record extends the engine's record,
  and every function of the engine applies to it unchanged.
\<close>

datatype DisplayMode = ACTIVE_LOW | ACTIVE_HIGH

datatype AnimationType =
    ANIM_ROTATE_CW
  | ANIM_ROTATE_CCW
  | ANIM_BLINK
  | ANIM_FADE
  | ANIM_CHASE
  | ANIM_LOADING

record NJU3711_7Segment = NJU3711 +
  displayMode :: DisplayMode
  decimalPointState :: bool
  brightness :: "8 word"
  animationActive :: bool
  currentAnimation :: AnimationType
  animationDelay :: "32 word"
  lastAnimationUpdate :: "32 word"
  animationStep :: "8 word"
  animationValue :: "8 word"

definition SEG_A :: nat where "SEG_A = 7"
definition SEG_B :: nat where "SEG_B = 5"
definition SEG_C :: nat where "SEG_C = 2"
definition SEG_D :: nat where "SEG_D = 1"
definition SEG_E :: nat where "SEG_E = 3"
definition SEG_F :: nat where "SEG_F = 6"

definition DIGIT_PATTERNS :: "8 word list" where
  "DIGIT_PATTERNS =
     [0b11101110, 0b00100100, 0b10111010, 0b10110110, 0b01110100,
      0b11010110, 0b11011110, 0b10100100, 0b11111110, 0b11110110]"

definition PATTERN_BLANK :: "8 word" where
  "PATTERN_BLANK = 0b00000000"

text \<open>
  The 3-pin constructor chains to the 3-pin constructor of the engine (the clear line
  is strapped), the 4-pin one to the 4-pin constructor.
\<close>

definition NJU3711_7Segment_ctor3 ::
  "8 word \<Rightarrow> 8 word \<Rightarrow> 8 word \<Rightarrow> DisplayMode \<Rightarrow>
   'a NJU3711_7Segment_scheme \<Rightarrow> 'a NJU3711_7Segment_scheme" where
  "NJU3711_7Segment_ctor3 dp cp sp mode m =
     (NJU3711_ctor3 dp cp sp m)
       \<lparr>displayMode := mode, decimalPointState := False, brightness := 255,
        animationActive := False, currentAnimation := ANIM_ROTATE_CW,
        animationDelay := 100000, lastAnimationUpdate := 0, animationStep := 0,
        animationValue := 0\<rparr>"

definition NJU3711_7Segment_ctor ::
  "8 word \<Rightarrow> 8 word \<Rightarrow> 8 word \<Rightarrow> 8 word \<Rightarrow> DisplayMode \<Rightarrow>
   'a NJU3711_7Segment_scheme \<Rightarrow> 'a NJU3711_7Segment_scheme" where
  "NJU3711_7Segment_ctor dp cp sp clr mode m =
     (NJU3711_ctor dp cp sp clr m)
       \<lparr>displayMode := mode, decimalPointState := False, brightness := 255,
        animationActive := False, currentAnimation := ANIM_ROTATE_CW,
        animationDelay := 100000, lastAnimationUpdate := 0, animationStep := 0,
        animationValue := 0\<rparr>"

definition applyDisplayMode :: "8 word \<Rightarrow> 'a NJU3711_7Segment_scheme \<Rightarrow> 8 word" where
  "applyDisplayMode segmentData s =
     (if displayMode s = ACTIVE_LOW then NOT segmentData else segmentData)"

definition getDigitPattern :: "8 word \<Rightarrow> 8 word" where
  "getDigitPattern digit =
     (if digit > 9 then PATTERN_BLANK else DIGIT_PATTERNS ! unat digit)"

definition getDisplayMode :: "'a NJU3711_7Segment_scheme \<Rightarrow> DisplayMode" where
  "getDisplayMode s = displayMode s"

definition stopAnimation :: "'a NJU3711_7Segment_scheme \<Rightarrow> 'a NJU3711_7Segment_scheme" where
  "stopAnimation s = s\<lparr>animationActive := False\<rparr>"

definition displayDigit ::
  "8 word \<Rightarrow> bool \<Rightarrow> 'a NJU3711_7Segment_scheme \<Rightarrow> bool \<times> 'a NJU3711_7Segment_scheme" where
  "displayDigit digit showDP s =
     (let s1 = (if animationActive s then stopAnimation s else s);
          pattern = (if showDP then getDigitPattern digit OR 1 else getDigitPattern digit);
          s2 = s1\<lparr>decimalPointState := showDP\<rparr>
      in NJU3711_write (applyDisplayMode pattern s2) s2)"

definition displayBlank ::
  "'a NJU3711_7Segment_scheme \<Rightarrow> bool \<times> 'a NJU3711_7Segment_scheme" where
  "displayBlank s =
     (let s1 = (if animationActive s then stopAnimation s else s);
          s2 = s1\<lparr>decimalPointState := False\<rparr>
      in NJU3711_write (applyDisplayMode PATTERN_BLANK s2) s2)"

text \<open>
  \<open>processAnimation\<close>. The segment tables are the local arrays of the source;
  \<open>_animationStep\<close> is a byte and is promoted to \<open>int\<close> before \<open>%\<close> and \<open>+\<close>.
  \<open>ANIM_FADE\<close> has no case in the source's switch.
\<close>

definition segments_cw :: "nat list" where
  "segments_cw = [SEG_A, SEG_B, SEG_C, SEG_D, SEG_E, SEG_F]"

definition segments_ccw :: "nat list" where
  "segments_ccw = [SEG_A, SEG_F, SEG_E, SEG_D, SEG_C, SEG_B]"

text \<open>The two \<open>for\<close> loops of \<open>processAnimation\<close> that build a pattern.\<close>

definition chasePattern :: "nat \<Rightarrow> 8 word" where
  "chasePattern st =
     foldl (\<lambda>pattern i. pattern OR push_bit (segments_cw ! ((st + i) mod 6)) 1) 0 [0 ..< 3]"

definition loadingPattern :: "nat \<Rightarrow> 8 word" where
  "loadingPattern st =
     foldl (\<lambda>pattern i. if i < 6 then pattern OR push_bit (segments_cw ! i) 1 else pattern)
       0 [0 ..< Suc (st mod 7)]"

definition processAnimation ::
  "32 word \<Rightarrow> 'a NJU3711_7Segment_scheme \<Rightarrow> 'a NJU3711_7Segment_scheme" where
  "processAnimation currentTime s =
     (if \<not> animationActive s then s
      else if currentTime - lastAnimationUpdate s < animationDelay s then s
      else
        (let st = unat (animationStep s);
             s1 = (case currentAnimation s of
                ANIM_ROTATE_CW \<Rightarrow>
                  (snd (NJU3711_write (applyDisplayMode (push_bit (segments_cw ! (st mod 6)) 1) s) s))
                    \<lparr>animationStep := animationStep s + 1\<rparr>
              | ANIM_ROTATE_CCW \<Rightarrow>
                  (snd (NJU3711_write (applyDisplayMode (push_bit (segments_ccw ! (st mod 6)) 1) s) s))
                    \<lparr>animationStep := animationStep s + 1\<rparr>
              | ANIM_BLINK \<Rightarrow>
                  (let s2 = (if st mod 2 = 0 then snd (displayDigit (animationValue s) False s)
                             else snd (displayBlank s))
                   in s2\<lparr>animationStep := animationStep s2 + 1\<rparr>)
              | ANIM_FADE \<Rightarrow> s
              | ANIM_CHASE \<Rightarrow>
                  (snd (NJU3711_write (applyDisplayMode (chasePattern st) s) s))
                    \<lparr>animationStep := animationStep s + 1\<rparr>
              | ANIM_LOADING \<Rightarrow>
                  (let s2 = (snd (NJU3711_write (applyDisplayMode (loadingPattern st) s) s))
                        \<lparr>animationStep := animationStep s + 1\<rparr>
                   in if animationStep s2 \<ge> 12 then s2\<lparr>animationStep := 0\<rparr> else s2))
         in s1\<lparr>lastAnimationUpdate := currentTime\<rparr>))"

definition update_7Segment ::
  "32 word \<Rightarrow> 'a NJU3711_7Segment_scheme \<Rightarrow> 'a NJU3711_7Segment_scheme" where
  "update_7Segment now s =
     (let s1 = update now s
      in if animationActive s1 then processAnimation now s1 else s1)"

section \<open>The multiplexed three-digit display (NJU3711_7Segment_Multi.h, .cpp)\<close>

datatype MultiplexState =
    MPLEX_IDLE
  | MPLEX_TURN_OFF_DIGITS
  | MPLEX_WAIT_BLANKING
  | MPLEX_WRITE_DATA
  | MPLEX_WAIT_DATA
  | MPLEX_TURN_ON_DIGIT
  | MPLEX_DISPLAY_DIGIT

text \<open>
  The four arrays of 3 entries are lists; \<open>mplex_wf\<close> below fixes their length. The
  source indexes them with \<open>_nextDigit\<close> unchecked; \<open>mplex_wf\<close> keeps that index below 3.
\<close>

record NJU3711_7Segment_Multi = NJU3711_7Segment +
  digitPins :: "8 word list"
  digitData :: "8 word list"
  digitDP :: "bool list"
  digitEnabled :: "bool list"
  mplexState :: MultiplexState
  currentDigit :: "8 word"
  nextDigit :: "8 word"
  lastMultiplexTime :: "32 word"
  lastStateTime :: "32 word"
  multiplexDelay :: "32 word"
  blankingTime :: "32 word"
  multiplexEnabled :: bool
  displayValue :: "16 word"
  leadingZeros :: bool
  blankOnZero :: bool

definition Multi_fields ::
  "8 word \<Rightarrow> 8 word \<Rightarrow> 8 word \<Rightarrow>
   'a NJU3711_7Segment_Multi_scheme \<Rightarrow> 'a NJU3711_7Segment_Multi_scheme" where
  "Multi_fields digit1Pin digit2Pin digit3Pin s =
     s\<lparr>digitPins := [digit1Pin, digit2Pin, digit3Pin],
       mplexState := MPLEX_IDLE, currentDigit := 0, nextDigit := 0,
       lastMultiplexTime := 0, lastStateTime := 0, multiplexDelay := 2000,
       blankingTime := 50, multiplexEnabled := True, displayValue := 0,
       leadingZeros := False, blankOnZero := False,
       digitData := [0, 0, 0], digitDP := [False, False, False],
       digitEnabled := [True, True, True]\<rparr>"

definition NJU3711_7Segment_Multi_ctor3 ::
  "8 word \<Rightarrow> 8 word \<Rightarrow> 8 word \<Rightarrow> 8 word \<Rightarrow> 8 word \<Rightarrow> 8 word \<Rightarrow> DisplayMode \<Rightarrow>
   'a NJU3711_7Segment_Multi_scheme \<Rightarrow> 'a NJU3711_7Segment_Multi_scheme" where
  "NJU3711_7Segment_Multi_ctor3 dp cp sp digit1Pin digit2Pin digit3Pin mode m =
     Multi_fields digit1Pin digit2Pin digit3Pin (NJU3711_7Segment_ctor3 dp cp sp mode m)"

definition NJU3711_7Segment_Multi_ctor ::
  "8 word \<Rightarrow> 8 word \<Rightarrow> 8 word \<Rightarrow> 8 word \<Rightarrow> 8 word \<Rightarrow> 8 word \<Rightarrow> 8 word \<Rightarrow> DisplayMode \<Rightarrow>
   'a NJU3711_7Segment_Multi_scheme \<Rightarrow> 'a NJU3711_7Segment_Multi_scheme" where
  "NJU3711_7Segment_Multi_ctor dp cp sp clr digit1Pin digit2Pin digit3Pin mode m =
     Multi_fields digit1Pin digit2Pin digit3Pin (NJU3711_7Segment_ctor dp cp sp clr mode m)"

definition selectDigit ::
  "8 word \<Rightarrow> 'a NJU3711_7Segment_Multi_scheme \<Rightarrow> 'a NJU3711_7Segment_Multi_scheme" where
  "selectDigit digit s =
     (if digit < 3 then digitalWrite (digitPins s ! unat digit) False s else s)"

definition deselectAllDigits ::
  "'a NJU3711_7Segment_Multi_scheme \<Rightarrow> 'a NJU3711_7Segment_Multi_scheme" where
  "deselectAllDigits s = foldl (\<lambda>s i. digitalWrite (digitPins s ! i) True s) s [0 ..< 3]"

definition begin_Multi ::
  "32 word \<Rightarrow> 'a NJU3711_7Segment_Multi_scheme \<Rightarrow> 'a NJU3711_7Segment_Multi_scheme" where
  "begin_Multi now s =
     (foldl (\<lambda>s i. digitalWrite (digitPins s ! i) True s) (begin_NJU3711 now s) [0 ..< 3])
       \<lparr>lastMultiplexTime := now\<rparr>"

definition setDigitRaw ::
  "8 word \<Rightarrow> 8 word \<Rightarrow> bool \<Rightarrow> 'a NJU3711_7Segment_Multi_scheme \<Rightarrow>
   bool \<times> 'a NJU3711_7Segment_Multi_scheme" where
  "setDigitRaw position segs showDP s =
     (if position \<ge> 3 then (False, s)
      else (True, s\<lparr>digitData := (digitData s)[unat position := segs],
                    digitDP := (digitDP s)[unat position := showDP],
                    digitEnabled := (digitEnabled s)[unat position := True]\<rparr>))"

definition enableDigit ::
  "8 word \<Rightarrow> bool \<Rightarrow> 'a NJU3711_7Segment_Multi_scheme \<Rightarrow>
   bool \<times> 'a NJU3711_7Segment_Multi_scheme" where
  "enableDigit position enable s =
     (if position \<ge> 3 then (False, s)
      else (True, s\<lparr>digitEnabled := (digitEnabled s)[unat position := enable]\<rparr>))"

definition disableDigit ::
  "8 word \<Rightarrow> 'a NJU3711_7Segment_Multi_scheme \<Rightarrow> bool \<times> 'a NJU3711_7Segment_Multi_scheme" where
  "disableDigit position s = enableDigit position False s"

text \<open>
  One call of \<open>multiplexDisplay\<close>. \<open>(_currentDigit + 1) % 3\<close> is computed on \<open>int\<close> and
  stored in a byte; \<open>~pattern\<close> stored in a byte is the bitwise complement.
\<close>

definition multiplexDisplay ::
  "32 word \<Rightarrow> 'a NJU3711_7Segment_Multi_scheme \<Rightarrow> 'a NJU3711_7Segment_Multi_scheme" where
  "multiplexDisplay currentTime s =
     (case mplexState s of
        MPLEX_IDLE \<Rightarrow>
          (if currentTime - lastMultiplexTime s \<ge> multiplexDelay s
           then s\<lparr>mplexState := MPLEX_TURN_OFF_DIGITS, lastStateTime := currentTime\<rparr>
           else s)
      | MPLEX_TURN_OFF_DIGITS \<Rightarrow>
          (deselectAllDigits s)\<lparr>mplexState := MPLEX_WAIT_BLANKING, lastStateTime := currentTime\<rparr>
      | MPLEX_WAIT_BLANKING \<Rightarrow>
          (if currentTime - lastStateTime s \<ge> blankingTime s
           then s\<lparr>nextDigit := of_nat ((unat (currentDigit s) + 1) mod 3),
                  mplexState := MPLEX_WRITE_DATA\<rparr>
           else s)
      | MPLEX_WRITE_DATA \<Rightarrow>
          (if \<not> isBusy s then
             (let n = unat (nextDigit s);
                  pattern0 =
                    (if digitEnabled s ! n
                     then (if digitDP s ! n then digitData s ! n OR push_bit 0 1
                           else digitData s ! n)
                     else 0x00);
                  pattern = (if getDisplayMode s = ACTIVE_LOW then NOT pattern0 else pattern0)
              in (snd (NJU3711_write pattern s))
                   \<lparr>mplexState := MPLEX_WAIT_DATA, lastStateTime := currentTime\<rparr>)
           else s)
      | MPLEX_WAIT_DATA \<Rightarrow>
          (if \<not> isBusy s then
             (if currentTime - lastStateTime s \<ge> 10
              then s\<lparr>mplexState := MPLEX_TURN_ON_DIGIT\<rparr>
              else s)
           else s)
      | MPLEX_TURN_ON_DIGIT \<Rightarrow>
          (selectDigit (nextDigit s) s)
            \<lparr>currentDigit := nextDigit s, mplexState := MPLEX_DISPLAY_DIGIT,
             lastMultiplexTime := currentTime\<rparr>
      | MPLEX_DISPLAY_DIGIT \<Rightarrow> s\<lparr>mplexState := MPLEX_IDLE\<rparr>)"

definition update_Multi ::
  "32 word \<Rightarrow> 'a NJU3711_7Segment_Multi_scheme \<Rightarrow> 'a NJU3711_7Segment_Multi_scheme" where
  "update_Multi now s =
     (let s1 = update_7Segment now s
      in if multiplexEnabled s1 \<and> \<not> isBusy s1 then multiplexDisplay now s1 else s1)"

section \<open>Invariants, abstraction and runs\<close>

subsection \<open>The queue\<close>

text \<open>
  \<open>queue_wf\<close> is the representation invariant of the ring buffer: the array has its 8
  entries, the head index is inside it, at most 8 entries are pending, and the tail is
  the head advanced by the number of pending entries. It holds after construction and is
  kept by every method (\<open>enqueue_wf\<close>, \<open>dequeue_wf\<close>, \<open>ctor_inv\<close>, \<open>update_inv\<close>).
  \<open>queue_list\<close> reads the pending operations off the array, oldest first.
\<close>

definition queue_wf :: "'a NJU3711_scheme \<Rightarrow> bool" where
  "queue_wf s \<longleftrightarrow>
     length (operationQueue s) = 8 \<and> unat (queueHead s) < 8 \<and> unat (queueSize s) \<le> 8 \<and>
     unat (queueTail s) = (unat (queueHead s) + unat (queueSize s)) mod 8"

definition queue_list :: "'a NJU3711_scheme \<Rightarrow> (NJU3711_Operation \<times> 8 word) list" where
  "queue_list s =
     map (\<lambda>i. (operation (operationQueue s ! ((unat (queueHead s) + i) mod 8)),
               data (operationQueue s ! ((unat (queueHead s) + i) mod 8))))
       [0 ..< unat (queueSize s)]"







text \<open>The four public submissions, as one type, and what each one enqueues.\<close>

datatype submission = Write "8 word" | ShiftOnly "8 word" | LatchOnly | Clear

fun submit :: "submission \<Rightarrow> 'a NJU3711_scheme \<Rightarrow> bool \<times> 'a NJU3711_scheme" where
  "submit (Write v) s = NJU3711_write v s"
| "submit (ShiftOnly v) s = shift v s"
| "submit LatchOnly s = latch s"
| "submit Clear s = clear s"

fun payload :: "submission \<Rightarrow> NJU3711_Operation \<times> 8 word" where
  "payload (Write v) = (NJU3711_OP_WRITE, v)"
| "payload (ShiftOnly v) = (NJU3711_OP_SHIFT_ONLY, v)"
| "payload LatchOnly = (NJU3711_OP_LATCH_ONLY, 0)"
| "payload Clear = (NJU3711_OP_CLEAR, 0)"

fun submit_all :: "submission list \<Rightarrow> 'a NJU3711_scheme \<Rightarrow> 'a NJU3711_scheme" where
  "submit_all [] s = s"
| "submit_all (x # xs) s = submit_all xs (snd (submit x s))"

subsection \<open>The engine\<close>

text \<open>
  \<open>engine_inv\<close> adds to \<open>queue_wf\<close> that the bit index is one of 7 .. 0 while the engine
  is shifting. \<open>steps_left\<close> counts the calls of \<open>update\<close> that pass the timing gate and
  are still needed before the running operation hands the engine back.
\<close>

definition engine_inv :: "'a NJU3711_scheme \<Rightarrow> bool" where
  "engine_inv s \<longleftrightarrow> queue_wf s \<and> (state s = NJU3711_SHIFTING \<longrightarrow> unat (bitIndex s) \<le> 7)"

definition steps_left :: "'a NJU3711_scheme \<Rightarrow> nat" where
  "steps_left s =
     (case state s of
        NJU3711_IDLE \<Rightarrow> 0
      | NJU3711_SHIFTING \<Rightarrow>
          2 * unat (bitIndex s) + (if clockState s then 1 else 2) +
          (if currentOperation s = NJU3711_OP_WRITE then (if latchStep s then 1 else 2) else 0)
      | NJU3711_LATCHING \<Rightarrow> (if latchStep s then 1 else 2)
      | NJU3711_CLEARING \<Rightarrow> (if clearPin s \<noteq> 255 then (if clearStep s then 1 else 2) else 1)
      | NJU3711_TEST_PATTERN \<Rightarrow> 0)"

text \<open>
  A run is a list of clock readings, one per call of \<open>update\<close>. \<open>eligible\<close> says that
  every call of the run finds the timing gate open; \<open>effective\<close> keeps the calls of a run
  that do (the others change nothing); \<open>spaced\<close> says that every call comes
  at least \<open>d\<close> after the one before (the first one after \<open>t0\<close>) on a clock that has
  not wrapped; \<open>visited\<close> lists the protocol states a run goes through.
\<close>

fun run :: "32 word list \<Rightarrow> 'a NJU3711_scheme \<Rightarrow> 'a NJU3711_scheme" where
  "run [] s = s"
| "run (t # ts) s = run ts (update t s)"

fun eligible :: "32 word list \<Rightarrow> 'a NJU3711_scheme \<Rightarrow> bool" where
  "eligible [] s = True"
| "eligible (t # ts) s = (isTimingMet t s \<and> eligible ts (update t s))"

fun effective :: "32 word list \<Rightarrow> 'a NJU3711_scheme \<Rightarrow> 32 word list" where
  "effective [] s = []"
| "effective (t # ts) s =
     (if isTimingMet t s then t # effective ts (update t s) else effective ts s)"

fun spaced :: "32 word \<Rightarrow> 32 word \<Rightarrow> 32 word list \<Rightarrow> bool" where
  "spaced d t0 [] = True"
| "spaced d t0 (t # ts) = (unat t0 + unat d \<le> unat t \<and> spaced d t ts)"

fun visited :: "32 word list \<Rightarrow> 'a NJU3711_scheme \<Rightarrow> NJU3711_State list" where
  "visited [] s = [state s]"
| "visited (t # ts) s = state s # visited ts (update t s)"

subsection \<open>The multiplexer\<close>

text \<open>
  A select line is active when its pin is LOW. \<open>active_lines\<close> lists the slots whose line
  is active, \<open>newly_selected\<close> the slots a step turns on, \<open>selections\<close> the slots a run
  turns on, in order, and \<open>lines_trace\<close> the active lines after every step of a run.
\<close>

definition active_lines :: "'a NJU3711_7Segment_Multi_scheme \<Rightarrow> nat list" where
  "active_lines s = filter (\<lambda>i. \<not> pins s (digitPins s ! i)) [0 ..< 3]"

fun run_Multi ::
  "32 word list \<Rightarrow> 'a NJU3711_7Segment_Multi_scheme \<Rightarrow> 'a NJU3711_7Segment_Multi_scheme" where
  "run_Multi [] s = s"
| "run_Multi (t # ts) s = run_Multi ts (update_Multi t s)"


definition newly_selected ::
  "'a NJU3711_7Segment_Multi_scheme \<Rightarrow> 'a NJU3711_7Segment_Multi_scheme \<Rightarrow> nat list" where
  "newly_selected s s' = filter (\<lambda>i. i \<notin> set (active_lines s)) (active_lines s')"


text \<open>
  \<open>mplex_wf\<close>: the four arrays have their 3 entries and both slot indices are below 3.
  \<open>pins_separate\<close>: the three select pins differ from each other and from the pins of the
  engine (a wiring in which two lines share a pin has no three select lines).
  \<open>mplex_inv\<close>: between the blanking and the selection all lines are inactive, the next
  slot is the successor of the current one once it has been chosen, and only the current
  slot's line can be active.
\<close>

definition mplex_wf :: "'a NJU3711_7Segment_Multi_scheme \<Rightarrow> bool" where
  "mplex_wf s \<longleftrightarrow>
     length (digitPins s) = 3 \<and> length (digitData s) = 3 \<and> length (digitDP s) = 3 \<and>
     length (digitEnabled s) = 3 \<and> unat (nextDigit s) < 3 \<and> unat (currentDigit s) < 3"

definition pins_separate :: "'a NJU3711_7Segment_Multi_scheme \<Rightarrow> bool" where
  "pins_separate s \<longleftrightarrow>
     distinct (digitPins s) \<and>
     set (digitPins s) \<inter> {dataPin s, clockPin s, strobePin s, clearPin s} = {}"

definition dark_phase :: "MultiplexState \<Rightarrow> bool" where
  "dark_phase m \<longleftrightarrow>
     m = MPLEX_WAIT_BLANKING \<or> m = MPLEX_WRITE_DATA \<or> m = MPLEX_WAIT_DATA \<or>
     m = MPLEX_TURN_ON_DIGIT"

definition next_chosen :: "MultiplexState \<Rightarrow> bool" where
  "next_chosen m \<longleftrightarrow> m = MPLEX_WRITE_DATA \<or> m = MPLEX_WAIT_DATA \<or> m = MPLEX_TURN_ON_DIGIT"

definition mplex_inv :: "'a NJU3711_7Segment_Multi_scheme \<Rightarrow> bool" where
  "mplex_inv s \<longleftrightarrow>
     mplex_wf s \<and> pins_separate s \<and>
     (dark_phase (mplexState s) \<longrightarrow> active_lines s = []) \<and>
     (next_chosen (mplexState s) \<longrightarrow> unat (nextDigit s) = (unat (currentDigit s) + 1) mod 3) \<and>
     set (active_lines s) \<subseteq> {unat (currentDigit s)}"

definition engine_frame :: "'a NJU3711_scheme \<Rightarrow> 'a NJU3711_scheme \<Rightarrow> bool" where
  "engine_frame s s' \<longleftrightarrow>
     dataPin s' = dataPin s \<and> clockPin s' = clockPin s \<and> strobePin s' = strobePin s \<and>
     clearPin s' = clearPin s \<and>
     (\<forall>p. p \<notin> {dataPin s, clockPin s, strobePin s, clearPin s} \<longrightarrow> pins s' p = pins s p)"

definition sel_step ::
  "'a NJU3711_7Segment_Multi_scheme \<Rightarrow> 'a NJU3711_7Segment_Multi_scheme \<Rightarrow> bool" where
  "sel_step s s' \<longleftrightarrow>
     (newly_selected s s' = [] \<and> currentDigit s' = currentDigit s) \<or>
     (newly_selected s s' = [(unat (currentDigit s) + 1) mod 3] \<and>
      unat (currentDigit s') = (unat (currentDigit s) + 1) mod 3)"


subsection \<open>Concrete engines and displays\<close>

text \<open>
  Storage with every byte zero (as for an object with static storage duration), an engine
  built in it with the clear line strapped and one with a clear pin, and the states the
  examples below start from. \<open>ticks a n\<close> are \<open>n\<close> clock readings one microsecond apart
  from \<open>a\<close>; \<open>slow_poll n\<close> are \<open>n\<close> readings 2000 microseconds apart.
\<close>

definition zero_storage :: NJU3711 where
  "zero_storage =
     \<lparr>dataPin = 0, clockPin = 0, strobePin = 0, clearPin = 0, currentData = 0,
      state = NJU3711_IDLE, currentOperation = NJU3711_OP_WRITE, shiftData = 0, bitIndex = 0,
      lastUpdateTime = 0, stepDelay = 0, clockState = False, testPatternStep = 0,
      testPatternType = 0, testPatternDelay = 0,
      operationQueue = replicate 8 \<lparr>operation = NJU3711_OP_WRITE, data = 0, valid = False\<rparr>,
      queueHead = 0, queueTail = 0, queueSize = 0, latchStep = False, clearStep = False,
      pins = (\<lambda>_. False)\<rparr>"

definition demo_engine :: NJU3711 where
  "demo_engine = NJU3711_ctor3 2 3 4 zero_storage"

definition hw_engine :: NJU3711 where
  "hw_engine = NJU3711_ctor 2 3 4 5 zero_storage"

definition ticks :: "int \<Rightarrow> nat \<Rightarrow> 32 word list" where
  "ticks a n = map (\<lambda>k. word_of_int (a + int k)) [0 ..< n]"

definition slow_poll :: "nat \<Rightarrow> 32 word list" where
  "slow_poll n = map (\<lambda>k. word_of_int (2000 * (1 + int k))) [0 ..< n]"


definition busy_engine :: NJU3711 where
  "busy_engine = update 1 (snd (NJU3711_write 0xA5 demo_engine))"

definition written_engine :: NJU3711 where
  "written_engine = run (ticks 1 19) (snd (NJU3711_write 0xA5 demo_engine))"

definition written_hw_engine :: NJU3711 where
  "written_hw_engine = run (ticks 1 19) (snd (NJU3711_write 0xA5 hw_engine))"

definition clearing_engine :: NJU3711 where
  "clearing_engine = update 20 (snd (clear written_hw_engine))"

definition clear_pending_engine :: NJU3711 where
  "clear_pending_engine = snd (NJU3711_write 0x77 (snd (clear written_engine)))"

definition paced_engine :: NJU3711 where
  "paced_engine =
     snd (NJU3711_write 0x3C (snd (NJU3711_write 0xA5 (setStepDelay 10 demo_engine))))"

definition latch_low_engine :: NJU3711 where
  "latch_low_engine = run (map (\<lambda>k. word_of_int (10 * (1 + int k))) [0 ..< 18]) paced_engine"

definition latched_engine :: NJU3711 where
  "latched_engine = update 190 latch_low_engine"

definition full_engine :: NJU3711 where
  "full_engine = submit_all (replicate 8 (Write 0xFF)) demo_engine"

definition tp_engine :: NJU3711 where
  "tp_engine = snd (startTestPattern 0 1 500000 demo_engine)"


definition multi_storage :: NJU3711_7Segment_Multi where
  "multi_storage =
     \<lparr>dataPin = 0, clockPin = 0, strobePin = 0, clearPin = 0, currentData = 0,
      state = NJU3711_IDLE, currentOperation = NJU3711_OP_WRITE, shiftData = 0, bitIndex = 0,
      lastUpdateTime = 0, stepDelay = 0, clockState = False, testPatternStep = 0,
      testPatternType = 0, testPatternDelay = 0,
      operationQueue = replicate 8 \<lparr>operation = NJU3711_OP_WRITE, data = 0, valid = False\<rparr>,
      queueHead = 0, queueTail = 0, queueSize = 0, latchStep = False, clearStep = False,
      pins = (\<lambda>_. False),
      displayMode = ACTIVE_LOW, decimalPointState = False, brightness = 0,
      animationActive = False, currentAnimation = ANIM_ROTATE_CW, animationDelay = 0,
      lastAnimationUpdate = 0, animationStep = 0, animationValue = 0,
      digitPins = [0, 0, 0], digitData = [0, 0, 0], digitDP = [False, False, False],
      digitEnabled = [False, False, False], mplexState = MPLEX_IDLE, currentDigit = 0,
      nextDigit = 0, lastMultiplexTime = 0, lastStateTime = 0, multiplexDelay = 0,
      blankingTime = 0, multiplexEnabled = False, displayValue = 0, leadingZeros = False,
      blankOnZero = False\<rparr>"

definition demo_display :: NJU3711_7Segment_Multi where
  "demo_display =
     snd (setDigitRaw 2 0b10111010 False
       (snd (setDigitRaw 1 0b00100100 False
         (snd (setDigitRaw 0 0b11101110 False
           (begin_Multi 0 (NJU3711_7Segment_Multi_ctor3 2 3 4 5 6 7 ACTIVE_LOW multi_storage)))))))"

definition dark_display :: NJU3711_7Segment_Multi where
  "dark_display = snd (disableDigit 1 demo_display)"

definition blanking_display :: NJU3711_7Segment_Multi where
  "blanking_display = run_Multi (slow_poll 22) dark_display"

definition writing_display :: NJU3711_7Segment_Multi where
  "writing_display = update_Multi 46000 blanking_display"

section \<open>The operation queue\<close>

lemma size_ge8: "queue_wf s \<Longrightarrow> queueSize s \<ge> 8 \<longleftrightarrow> queueSize s = 8"
  unfolding queue_wf_def by unat_arith

lemma size_ge8': "queue_wf s \<Longrightarrow> queueSize s \<ge> 8 \<longleftrightarrow> unat (queueSize s) = 8"
  unfolding queue_wf_def by unat_arith

lemma unat_mod8: "unat (of_nat (n mod 8) :: 8 word) = n mod 8"
  by (simp add: unat_of_nat)

lemma unat_size_suc: "unat (q :: 8 word) < 8 \<Longrightarrow> unat (q + 1) = unat q + 1"
  by (simp add: unat_word_ariths)

lemma unat_size_pred: "q \<noteq> 0 \<Longrightarrow> unat (q - 1 :: 8 word) = unat q - 1"
  by unat_arith

lemma ring_pred: "0 < n \<Longrightarrow> (Suc h mod 8 + n - Suc 0) mod 8 = (h + n) mod (8::nat)"
proof -
  assume "0 < n"
  then have "Suc h mod 8 + n - Suc 0 = Suc h mod 8 + (n - 1)" by simp
  also have "\<dots> mod 8 = (Suc h + (n - 1)) mod 8" by (simp add: mod_add_left_eq)
  also have "Suc h + (n - 1) = h + n" using \<open>0 < n\<close> by simp
  finally show ?thesis .
qed

lemma ring_inj: "i < n \<Longrightarrow> n < 8 \<Longrightarrow> (h + n) mod 8 \<noteq> (h + i) mod (8::nat)"
proof
  assume i: "i < n" and n: "n < 8" and e: "(h + n) mod 8 = (h + i) mod 8"
  from i have "h + i \<le> h + n" by simp
  with e have "8 dvd (h + n) - (h + i)" by (simp add: mod_eq_dvd_iff_nat)
  then have "8 dvd n - i" by simp
  moreover have "0 < n - i" "n - i < 8" using i n by simp_all
  ultimately show False by (meson dvd_imp_le not_less)
qed

lemma enqueue_wf: "queue_wf s \<Longrightarrow> queue_wf (snd (enqueueOperation op d s))"
proof (cases "queueSize s \<ge> 8")
  case True then show "queue_wf s \<Longrightarrow> queue_wf (snd (enqueueOperation op d s))"
    by (simp add: enqueueOperation_def)
next
  case False
  assume wf: "queue_wf s"
  from False wf have lt: "unat (queueSize s) < 8" by (simp add: size_ge8' queue_wf_def)
  show "queue_wf (snd (enqueueOperation op d s))"
    using wf lt False
    by (simp add: enqueueOperation_def queue_wf_def unat_mod8 unat_size_suc mod_simps)
qed

lemma dequeue_wf: "queue_wf s \<Longrightarrow> queue_wf (snd (dequeueOperation s))"
proof (cases "queueSize s = 0")
  case True then show "queue_wf s \<Longrightarrow> queue_wf (snd (dequeueOperation s))"
    by (simp add: dequeueOperation_def)
next
  case False
  assume wf: "queue_wf s"
  from False have pos: "0 < unat (queueSize s)" by (simp add: unat_gt_0)
  have "(unat (queueHead s) + 1 + (unat (queueSize s) - 1)) mod 8 = (unat (queueHead s) + unat (queueSize s)) mod 8"
    using pos by simp
  then show "queue_wf (snd (dequeueOperation s))"
    using wf pos False
    by (auto simp add: dequeueOperation_def queue_wf_def unat_mod8 unat_size_pred ring_pred)
qed

lemma enqueue_list:
  assumes wf: "queue_wf s" and lt: "\<not> queueSize s \<ge> 8"
  shows "queue_list (snd (enqueueOperation op d s)) = queue_list s @ [(op, d)]"
proof -
  from lt wf have n: "unat (queueSize s) < 8" by (simp add: size_ge8' queue_wf_def)
  have tl: "unat (queueTail s) = (unat (queueHead s) + unat (queueSize s)) mod 8"
    and len: "length (operationQueue s) = 8" using wf by (simp_all add: queue_wf_def)
  have neq: "\<And>i. i < unat (queueSize s) \<Longrightarrow> (unat (queueHead s) + unat (queueSize s)) mod 8 \<noteq> (unat (queueHead s) + i) mod 8"
    using n by (simp add: ring_inj)
  show ?thesis
    using n lt neq len
    by (simp add: enqueueOperation_def queue_list_def unat_size_suc tl)
qed

lemma entry_after_invalidate:
  "j < length q \<Longrightarrow>
   operation (q[h := (q ! h)\<lparr>valid := False\<rparr>] ! j) = operation (q ! j) \<and>
   data (q[h := (q ! h)\<lparr>valid := False\<rparr>] ! j) = data (q ! j)"
  by (cases "j = h") simp_all

lemma dequeue_list:
  assumes wf: "queue_wf s" and ne: "queueSize s \<noteq> 0"
  shows "fst (dequeueOperation s) = Some (hd (queue_list s))"
    and "queue_list (snd (dequeueOperation s)) = tl (queue_list s)"
proof -
  from ne have pos: "0 < unat (queueSize s)" by (simp add: unat_gt_0)
  have h: "unat (queueHead s) < 8" and len: "length (operationQueue s) = 8"
    using wf by (simp_all add: queue_wf_def)
  from pos have upt: "[0 ..< unat (queueSize s)] = 0 # map Suc [0 ..< unat (queueSize s) - 1]"
    by (metis One_nat_def Suc_pred map_Suc_upt upt_conv_Cons)
  show "fst (dequeueOperation s) = Some (hd (queue_list s))"
    using ne h by (simp add: dequeueOperation_def queue_list_def upt)
  have idx: "\<And>i. (Suc (unat (queueHead s)) mod 8 + i) mod 8 = (unat (queueHead s) + Suc i) mod 8"
    by (simp add: mod_add_left_eq)
  show "queue_list (snd (dequeueOperation s)) = tl (queue_list s)"
    using ne len
    by (simp add: dequeueOperation_def queue_list_def upt unat_size_pred unat_mod8
        entry_after_invalidate idx del: upt_Suc)
qed

lemma queue_list_empty: "queueSize s = 0 \<Longrightarrow> queue_list s = []"
  by (simp add: queue_list_def)


lemma enqueue_fields:
  "state (snd (enqueueOperation op d s)) = state s"
  "currentData (snd (enqueueOperation op d s)) = currentData s"
  "bitIndex (snd (enqueueOperation op d s)) = bitIndex s"
  "clearPin (snd (enqueueOperation op d s)) = clearPin s"
  "lastUpdateTime (snd (enqueueOperation op d s)) = lastUpdateTime s"
  "stepDelay (snd (enqueueOperation op d s)) = stepDelay s"
  by (simp_all add: enqueueOperation_def)

lemma dequeue_fields:
  "state (snd (dequeueOperation s)) = state s"
  "currentData (snd (dequeueOperation s)) = currentData s"
  "clearPin (snd (dequeueOperation s)) = clearPin s"
  "latchStep (snd (dequeueOperation s)) = latchStep s"
  "clockState (snd (dequeueOperation s)) = clockState s"
  by (simp_all add: dequeueOperation_def)

lemma submit_enqueue:
  "submit x s = enqueueOperation (fst (payload x)) (snd (payload x)) (stopTestPattern s)"
  by (cases x) (simp_all add: NJU3711_write_def shift_def latch_def clear_def stopTestPattern_def)

lemma stop_queue:
  "queue_wf (stopTestPattern s) = queue_wf s"
  "queueSize (stopTestPattern s) = queueSize s"
  "queueHead (stopTestPattern s) = queueHead s"
  "queueTail (stopTestPattern s) = queueTail s"
  "operationQueue (stopTestPattern s) = operationQueue s"
  "queue_list (stopTestPattern s) = queue_list s"
  by (simp_all add: stopTestPattern_def queue_wf_def queue_list_def)

lemma submit_wf': "queue_wf s \<Longrightarrow> queue_wf (snd (submit x s))"
  by (simp add: submit_enqueue enqueue_wf stop_queue)

lemma submit_all_wf: "queue_wf s \<Longrightarrow> queue_wf (submit_all xs s)"
  by (induction xs arbitrary: s) (simp_all add: submit_wf')

lemma submit_size:
  "queue_wf s \<Longrightarrow> unat (queueSize (snd (submit x s))) = min 8 (unat (queueSize s) + 1)"
proof -
  assume wf: "queue_wf s"
  show ?thesis
  proof (cases "queueSize s \<ge> 8")
    case True
    with wf have "unat (queueSize s) = 8" by (simp add: size_ge8')
    with True show ?thesis by (simp add: submit_enqueue enqueueOperation_def stop_queue)
  next
    case False
    with wf have "unat (queueSize s) < 8" by (simp add: size_ge8' queue_wf_def)
    with False show ?thesis
      by (simp add: submit_enqueue enqueueOperation_def stop_queue unat_size_suc)
  qed
qed

lemma submit_all_size:
  "queue_wf s \<Longrightarrow> unat (queueSize (submit_all xs s)) = min 8 (unat (queueSize s) + length xs)"
proof (induction xs arbitrary: s)
  case Nil then show ?case by (simp add: queue_wf_def)
next
  case (Cons x xs)
  from Cons.IH[OF submit_wf'[OF Cons.prems, of x]] submit_size[OF Cons.prems, of x]
  show ?case by simp
qed

subsection \<open>C4: a submission fails exactly when the queue is full\<close>

text \<open>
  Claim C4. In every state that satisfies the queue invariant (every state a sequence of
  submissions and steps can reach), a submission (\<open>write\<close>, \<open>shift\<close>, \<open>latch\<close> or \<open>clear\<close>)
  returns false if and only if \<open>getQueueSize\<close> is 8; when it returns false the array, the
  head, the tail and the size are as before; when it returns true the size has grown by
  one and the operation is the last of the pending ones. In particular, after eight
  submissions of \<open>write 0xFF\<close> with no step in between, the ninth returns false and the size
  stays 8, whatever was pending before.
\<close>

theorem submit_fails_iff_full:
  assumes wf: "queue_wf s"
  shows "(\<not> fst (submit x s) \<longleftrightarrow> getQueueSize s = 8) \<and>
         (\<not> fst (submit x s) \<longrightarrow>
            operationQueue (snd (submit x s)) = operationQueue s \<and>
            queueHead (snd (submit x s)) = queueHead s \<and>
            queueTail (snd (submit x s)) = queueTail s \<and>
            getQueueSize (snd (submit x s)) = getQueueSize s) \<and>
         (fst (submit x s) \<longrightarrow>
            unat (getQueueSize (snd (submit x s))) = unat (getQueueSize s) + 1 \<and>
            queue_list (snd (submit x s)) = queue_list s @ [payload x]) \<and>
         \<not> fst (submit (Write 0xFF) (submit_all (replicate 8 (Write 0xFF)) s)) \<and>
         getQueueSize (snd (submit (Write 0xFF) (submit_all (replicate 8 (Write 0xFF)) s))) = 8"
proof -
  have a: "\<not> fst (submit x s) \<longleftrightarrow> getQueueSize s = 8"
    using size_ge8[OF wf] by (simp add: submit_enqueue enqueueOperation_def stop_queue getQueueSize_def)
  have b: "\<not> fst (submit x s) \<longrightarrow>
            operationQueue (snd (submit x s)) = operationQueue s \<and>
            queueHead (snd (submit x s)) = queueHead s \<and>
            queueTail (snd (submit x s)) = queueTail s \<and>
            getQueueSize (snd (submit x s)) = getQueueSize s"
    by (simp add: submit_enqueue enqueueOperation_def stop_queue getQueueSize_def)
  have c: "fst (submit x s) \<longrightarrow>
            unat (getQueueSize (snd (submit x s))) = unat (getQueueSize s) + 1 \<and>
            queue_list (snd (submit x s)) = queue_list s @ [payload x]"
  proof
    assume ok: "fst (submit x s)"
    then have nf: "\<not> queueSize (stopTestPattern s) \<ge> 8"
      by (simp add: submit_enqueue enqueueOperation_def split: if_splits)
    have wf': "queue_wf (stopTestPattern s)" using wf by (simp add: stop_queue)
    from nf wf have "unat (queueSize s) < 8" by (simp add: size_ge8' queue_wf_def stop_queue)
    then have "unat (getQueueSize (snd (submit x s))) = unat (getQueueSize s) + 1"
      using submit_size[OF wf, of x] by (simp add: getQueueSize_def)
    moreover have "queue_list (snd (submit x s)) = queue_list s @ [payload x]"
      using enqueue_list[OF wf' nf] by (simp add: submit_enqueue stop_queue)
    ultimately show "unat (getQueueSize (snd (submit x s))) = unat (getQueueSize s) + 1 \<and>
            queue_list (snd (submit x s)) = queue_list s @ [payload x]" by simp
  qed
  let ?s8 = "submit_all (replicate 8 (Write 0xFF)) s"
  have wf8: "queue_wf ?s8" by (rule submit_all_wf[OF wf])
  have "unat (queueSize ?s8) = 8" using submit_all_size[OF wf, of "replicate 8 (Write 0xFF)"] by simp
  then have s8: "queueSize ?s8 = 8" using size_ge8[OF wf8] size_ge8'[OF wf8] by simp
  then have d: "\<not> fst (submit (Write 0xFF) ?s8) \<and> getQueueSize (snd (submit (Write 0xFF) ?s8)) = 8"
    by (simp add: submit_enqueue enqueueOperation_def stop_queue getQueueSize_def)
  from a b c d show ?thesis by blast
qed

theorem submit_fails_iff_full_witness:
  "queue_wf demo_engine \<and> getQueueSize demo_engine = 0 \<and>
   fst (submit (Write 0xFF) demo_engine) \<and>
   queue_list (snd (submit (Write 0xFF) demo_engine)) = [(NJU3711_OP_WRITE, 0xFF)] \<and>
   queue_wf full_engine \<and> getQueueSize full_engine = 8 \<and>
   \<not> fst (submit Clear full_engine) \<and>
   operationQueue (snd (submit Clear full_engine)) = operationQueue full_engine \<and>
   queueHead (snd (submit Clear full_engine)) = queueHead full_engine \<and>
   queueTail (snd (submit Clear full_engine)) = queueTail full_engine \<and>
   getQueueSize (snd (submit Clear full_engine)) = 8 \<and>
   \<not> fst (submit (Write 0xFF) (submit_all (replicate 8 (Write 0xFF)) demo_engine)) \<and>
   getQueueSize (snd (submit (Write 0xFF) (submit_all (replicate 8 (Write 0xFF)) demo_engine))) = 8"
proof -
  have a: "queue_wf demo_engine" "getQueueSize demo_engine = 0" "queue_list demo_engine = []"
    by code_simp+
  have b: "queue_wf full_engine" "getQueueSize full_engine = 8" by code_simp+
  note 1 = submit_fails_iff_full[OF a(1), of "Write 0xFF"]
  note 2 = submit_fails_iff_full[OF b(1), of Clear]
  from 1 a have 3: "fst (submit (Write 0xFF) demo_engine)" by simp
  with 1 a(3) have 4: "queue_list (snd (submit (Write 0xFF) demo_engine)) = [(NJU3711_OP_WRITE, 0xFF)]"
    by simp
  from 2 b have 5: "\<not> fst (submit Clear full_engine)" by simp
  with 2 b(2) have 6: "operationQueue (snd (submit Clear full_engine)) = operationQueue full_engine \<and>
   queueHead (snd (submit Clear full_engine)) = queueHead full_engine \<and>
   queueTail (snd (submit Clear full_engine)) = queueTail full_engine \<and>
   getQueueSize (snd (submit Clear full_engine)) = 8" by simp
  from 1 a b 3 4 5 6 show ?thesis by blast
qed

subsection \<open>C8: the ring buffer is a bounded FIFO\<close>





lemma idle_step:
  assumes "state s = NJU3711_IDLE" and "isTimingMet t s" and "queue_wf s" and "queueSize s \<noteq> 0"
  shows "update t s =
     startOperation (fst (hd (queue_list s))) (snd (hd (queue_list s))) (snd (dequeueOperation s))"
proof -
  obtain r s1 where d: "dequeueOperation s = (r, s1)" by fastforce
  with dequeue_list(1)[OF assms(3,4)] have "r = Some (hd (queue_list s))" by simp
  then show ?thesis using assms(1,2) d
    by (cases "hd (queue_list s)") (simp add: update_def processStateMachine_def)
qed



section \<open>The protocol engine, step by step\<close>

lemma bitIndex_cases: "unat (b :: 8 word) \<le> 7 \<Longrightarrow> b = 0 \<or> b = 1 \<or> b = 2 \<or> b = 3 \<or> b = 4 \<or> b = 5 \<or> b = 6 \<or> b = 7"
  by unat_arith

lemma bitIndex_dec:
  assumes "unat (b :: 8 word) \<le> 7"
  shows "(sint (b - 1) < 0) = (b = 0)" and "b \<noteq> 0 \<Longrightarrow> unat (b - 1) = unat b - 1"
  using bitIndex_cases[OF assms] by auto

lemma step_shifting:
  assumes inv: "engine_inv s" and st: "state s = NJU3711_SHIFTING" and tm: "isTimingMet t s"
  shows "steps_left (update t s) + 1 = steps_left s"
    and "engine_inv (update t s)"
    and "state (update t s) \<in> {NJU3711_SHIFTING, NJU3711_LATCHING, NJU3711_IDLE}"
    and "currentData (update t s) = currentData s"
    and "queue_list (update t s) = queue_list s"
    and "queueSize (update t s) = queueSize s"
proof -
  from inv st have b: "unat (bitIndex s) \<le> 7" and wf: "queue_wf s" by (simp_all add: engine_inv_def)
  note d = bitIndex_dec[OF b]
  show "steps_left (update t s) + 1 = steps_left s"
    using st tm d unat_gt_0[of "bitIndex s"]
    by (cases "bitIndex s = 0")
       (auto simp: update_def processStateMachine_def updateClock_def digitalWrite_def steps_left_def Let_def)
  show "engine_inv (update t s)"
    using st tm d b wf
    by (cases "bitIndex s = 0")
       (auto simp: update_def processStateMachine_def updateClock_def digitalWrite_def engine_inv_def queue_wf_def Let_def)
  show "state (update t s) \<in> {NJU3711_SHIFTING, NJU3711_LATCHING, NJU3711_IDLE}"
    using st tm
    by (auto simp: update_def processStateMachine_def updateClock_def digitalWrite_def Let_def)
  show "currentData (update t s) = currentData s"
    using st tm
    by (auto simp: update_def processStateMachine_def updateClock_def digitalWrite_def Let_def)
  show "queue_list (update t s) = queue_list s"
    using st tm
    by (auto simp: update_def processStateMachine_def updateClock_def digitalWrite_def Let_def queue_list_def)
  show "queueSize (update t s) = queueSize s"
    using st tm
    by (auto simp: update_def processStateMachine_def updateClock_def digitalWrite_def Let_def)
qed

lemma step_latching:
  assumes inv: "engine_inv s" and st: "state s = NJU3711_LATCHING" and tm: "isTimingMet t s"
  shows "steps_left (update t s) + 1 = steps_left s"
    and "engine_inv (update t s)"
    and "state (update t s) \<in> {NJU3711_LATCHING, NJU3711_IDLE}"
    and "currentData (update t s) = currentData s"
    and "queue_list (update t s) = queue_list s"
    and "queueSize (update t s) = queueSize s"
  using inv st tm
  by (auto simp: update_def processStateMachine_def digitalWrite_def steps_left_def
      engine_inv_def queue_wf_def queue_list_def)

lemma step_clearing:
  assumes inv: "engine_inv s" and st: "state s = NJU3711_CLEARING" and tm: "isTimingMet t s"
  shows "steps_left (update t s) + 1 = steps_left s"
    and "engine_inv (update t s)"
    and "state (update t s) \<in> {NJU3711_CLEARING, NJU3711_IDLE}"
proof -
  obtain r s1 where e: "enqueueOperation NJU3711_OP_WRITE 0 s = (r, s1)" by fastforce
  have s1: "queue_wf s1" using enqueue_wf[of s NJU3711_OP_WRITE 0] inv e by (simp add: engine_inv_def)
  have c1: "clearPin s1 = clearPin s" "state s1 = state s"
    using e by (auto simp: enqueueOperation_def split: if_splits)
  show "steps_left (update t s) + 1 = steps_left s"
    using st tm e c1
    by (cases r) (auto simp: update_def processStateMachine_def digitalWrite_def steps_left_def)
  show "engine_inv (update t s)"
    using st tm e c1 s1 inv
    by (cases r) (auto simp: update_def processStateMachine_def digitalWrite_def engine_inv_def queue_wf_def)
  show "state (update t s) \<in> {NJU3711_CLEARING, NJU3711_IDLE}"
    using st tm e c1
    by (cases r) (auto simp: update_def processStateMachine_def digitalWrite_def)
qed

lemma steps_left_pos:
  "state s \<in> {NJU3711_SHIFTING, NJU3711_LATCHING, NJU3711_CLEARING} \<Longrightarrow> 0 < steps_left s"
  by (auto simp: steps_left_def)

lemma steps_left_le:
  "engine_inv s \<Longrightarrow> steps_left s \<le> 18"
  by (cases "state s") (auto simp: steps_left_def engine_inv_def)


lemma idle_empty_step:
  "state s = NJU3711_IDLE \<Longrightarrow> queueSize s = 0 \<Longrightarrow> update t s = s"
  by (simp add: update_def processStateMachine_def dequeueOperation_def)


lemma run_settle:
  "engine_inv s \<Longrightarrow> state s \<in> {NJU3711_SHIFTING, NJU3711_LATCHING, NJU3711_IDLE} \<Longrightarrow>
   queueSize s = 0 \<Longrightarrow> steps_left s \<le> length ts \<Longrightarrow> eligible ts s \<Longrightarrow>
   state (run ts s) = NJU3711_IDLE \<and> currentData (run ts s) = currentData s \<and>
   queueSize (run ts s) = 0"
proof (induction ts arbitrary: s)
  case Nil
  then show ?case using steps_left_pos[of s] by auto
next
  case (Cons t ts)
  from Cons.prems have tm: "isTimingMet t s" and el: "eligible ts (update t s)" by simp_all
  show ?case
  proof (cases "state s = NJU3711_IDLE")
    case True
    with Cons.prems(3) have same: "update t s = s" by (simp add: idle_empty_step)
    have "steps_left s = 0" using True by (simp add: steps_left_def)
    with Cons.IH[of s] Cons.prems el same show ?thesis by simp
  next
    case False
    with Cons.prems(2) have act: "state s = NJU3711_SHIFTING \<or> state s = NJU3711_LATCHING" by auto
    let ?s' = "update t s"
    from act have f: "steps_left ?s' + 1 = steps_left s" "engine_inv ?s'"
      "state ?s' \<in> {NJU3711_SHIFTING, NJU3711_LATCHING, NJU3711_IDLE}"
      "currentData ?s' = currentData s" "queueSize ?s' = queueSize s"
      using step_shifting[OF Cons.prems(1) _ tm] step_latching[OF Cons.prems(1) _ tm] by auto
    from f(1) Cons.prems(4) have "steps_left ?s' \<le> length ts" by simp
    from Cons.IH[OF f(2,3) _ this el] f(4,5) Cons.prems(3) show ?thesis by simp
  qed
qed

text \<open>The first step after a submission to an idle engine with an empty queue.\<close>

lemma first_step:
  assumes inv: "engine_inv s" and idle: "state s = NJU3711_IDLE" and emp: "queueSize s = 0"
    and tm: "isTimingMet t (snd (enqueueOperation op d s))"
  shows "update t (snd (enqueueOperation op d s)) =
           startOperation op d (snd (dequeueOperation (snd (enqueueOperation op d s))))"
    and "queueSize (snd (dequeueOperation (snd (enqueueOperation op d s)))) = 0"
    and "queue_wf (snd (dequeueOperation (snd (enqueueOperation op d s))))"
proof -
  let ?s0 = "snd (enqueueOperation op d s)"
  from inv have wf: "queue_wf s" by (simp add: engine_inv_def)
  have nf: "\<not> queueSize s \<ge> 8" using emp by simp
  have ql: "queue_list ?s0 = [(op, d)]"
    using enqueue_list[OF wf nf, of op d] emp by (simp add: queue_list_empty)
  have sz: "queueSize ?s0 = 1" using emp by (simp add: enqueueOperation_def)
  have wf0: "queue_wf ?s0" by (rule enqueue_wf[OF wf])
  have st0: "state ?s0 = NJU3711_IDLE" using idle by (simp add: enqueue_fields)
  from idle_step[OF st0 tm wf0] sz ql
  show "update t ?s0 = startOperation op d (snd (dequeueOperation ?s0))" by simp
  show "queueSize (snd (dequeueOperation ?s0)) = 0"
    using sz by (simp add: dequeueOperation_def)
  show "queue_wf (snd (dequeueOperation ?s0))" by (rule dequeue_wf[OF wf0])
qed

subsection \<open>The invariant holds in every reachable state\<close>

lemma ctor_inv:
  "length (operationQueue m) = 8 \<Longrightarrow> engine_inv (NJU3711_ctor dp cp sp clr m)"
  "length (operationQueue m) = 8 \<Longrightarrow> engine_inv (NJU3711_ctor3 dp cp sp m)"
  by (simp_all add: engine_inv_def queue_wf_def NJU3711_ctor_def NJU3711_ctor3_def)

lemma submit_inv: "engine_inv s \<Longrightarrow> engine_inv (snd (submit x s))"
proof -
  assume inv: "engine_inv s"
  then have "queue_wf (snd (submit x s))" by (simp add: engine_inv_def submit_wf')
  moreover have "state (snd (submit x s)) = NJU3711_SHIFTING \<longrightarrow> unat (bitIndex (snd (submit x s))) \<le> 7"
    using inv by (auto simp: submit_enqueue enqueue_fields stopTestPattern_def engine_inv_def)
  ultimately show ?thesis by (simp add: engine_inv_def)
qed

lemma write_inv: "engine_inv s \<Longrightarrow> engine_inv (snd (NJU3711_write v s))"
  using submit_inv[of s "Write v"] by simp

lemma start_inv: "engine_inv s \<Longrightarrow> engine_inv (startOperation op d s)"
  by (cases op) (simp_all add: engine_inv_def queue_wf_def digitalWrite_def)

lemma dequeue_inv: "engine_inv s \<Longrightarrow> engine_inv (snd (dequeueOperation s))"
  using dequeue_wf[of s] by (simp add: engine_inv_def) (simp add: dequeueOperation_def)

lemma testPattern_inv:
  assumes inv: "engine_inv s" and st: "state s = NJU3711_TEST_PATTERN"
  shows "engine_inv (testPatternTick t s)"
proof -
  have a: "\<And>v x. engine_inv ((snd (NJU3711_write v s))\<lparr>testPatternStep := x, lastUpdateTime := t\<rparr>)"
    using write_inv[OF inv] by (simp add: engine_inv_def queue_wf_def)
  have b: "engine_inv (s\<lparr>lastUpdateTime := t\<rparr>)" using inv by (simp add: engine_inv_def queue_wf_def)
  show ?thesis using a b inv by (simp add: testPatternTick_def Let_def)
qed

lemma update_inv: "engine_inv s \<Longrightarrow> engine_inv (update t s)"
proof -
  assume inv: "engine_inv s"
  show ?thesis
  proof (cases "isTimingMet t s")
    case False
    then show ?thesis using inv by (simp add: update_def processStateMachine_def)
  next
    case True
    show ?thesis
    proof (cases "state s")
      case NJU3711_IDLE
      from inv have wf: "queue_wf s" by (simp add: engine_inv_def)
      show ?thesis
      proof (cases "queueSize s = 0")
        case True
        then show ?thesis using inv NJU3711_IDLE by (simp add: idle_empty_step)
      next
        case False
        from idle_step[OF NJU3711_IDLE \<open>isTimingMet t s\<close> wf False] start_inv[OF dequeue_inv[OF inv]]
        show ?thesis by simp
      qed
    next
      case NJU3711_SHIFTING
      then show ?thesis using step_shifting(2)[OF inv _ True] by simp
    next
      case NJU3711_LATCHING
      then show ?thesis using step_latching(2)[OF inv _ True] by simp
    next
      case NJU3711_CLEARING
      then show ?thesis using step_clearing(2)[OF inv _ True] by simp
    next
      case NJU3711_TEST_PATTERN
      then show ?thesis using testPattern_inv[OF inv] True
        by (simp add: update_def processStateMachine_def)
    qed
  qed
qed

lemma run_inv: "engine_inv s \<Longrightarrow> engine_inv (run ts s)"
  by (induction ts arbitrary: s) (simp_all add: update_inv)

lemma startTestPattern_inv: "engine_inv s \<Longrightarrow> engine_inv (snd (startTestPattern now ty dl s))"
  by (simp add: startTestPattern_def engine_inv_def queue_wf_def)

lemma clearQueue_inv: "length (operationQueue s) = 8 \<Longrightarrow> state s \<noteq> NJU3711_SHIFTING \<or> unat (bitIndex s) \<le> 7 \<Longrightarrow> engine_inv (clearQueue s)"
  by (auto simp: clearQueue_def engine_inv_def queue_wf_def)

lemma begin_inv: "engine_inv s \<Longrightarrow> engine_inv (begin_NJU3711 now s)"
proof -
  assume inv: "engine_inv s"
  define b where "b = (let s1 = digitalWrite (dataPin s) False s;
          s2 = digitalWrite (clockPin s1) False s1;
          s3 = digitalWrite (strobePin s2) True s2;
          s4 = (if clearPin s3 \<noteq> 255 then digitalWrite (clearPin s3) True s3 else s3)
      in s4\<lparr>lastUpdateTime := now, state := NJU3711_IDLE\<rparr>)"
  have "engine_inv b" using inv
    by (simp add: b_def Let_def digitalWrite_def engine_inv_def queue_wf_def)
  from submit_inv[OF this, of Clear] show ?thesis
    by (simp add: begin_NJU3711_def b_def Let_def)
qed

subsection \<open>Timing\<close>

lemma write_timing:
  "stepDelay (snd (NJU3711_write v s)) = stepDelay s"
  "lastUpdateTime (snd (NJU3711_write v s)) = lastUpdateTime s"
  by (simp_all add: NJU3711_write_def stopTestPattern_def enqueue_fields)

lemma start_timing:
  "stepDelay (startOperation op d s) = stepDelay s"
  "lastUpdateTime (startOperation op d s) = lastUpdateTime s"
  by (cases op; simp add: digitalWrite_def)+

lemma update_timing:
  "stepDelay (update t s) = stepDelay s"
  "lastUpdateTime (update t s) = lastUpdateTime s \<or> lastUpdateTime (update t s) = t"
proof -
  show "stepDelay (update t s) = stepDelay s"
    by (cases "state s")
       (auto simp: update_def processStateMachine_def updateClock_def digitalWrite_def Let_def
          testPatternTick_def write_timing start_timing enqueueOperation_def dequeueOperation_def
          split: prod.splits option.splits bool.splits)
  show "lastUpdateTime (update t s) = lastUpdateTime s \<or> lastUpdateTime (update t s) = t"
    by (cases "state s")
       (auto simp: update_def processStateMachine_def updateClock_def digitalWrite_def Let_def
          testPatternTick_def write_timing start_timing enqueueOperation_def dequeueOperation_def
          split: prod.splits option.splits bool.splits)
qed

text \<open>
  Calls spaced at least \<open>_stepDelay\<close> apart, the first one at least that long after the
  last recorded pin change, all find the timing gate open.
\<close>

lemma spaced_eligible:
  "unat (lastUpdateTime s) \<le> unat t0 \<Longrightarrow> spaced (stepDelay s) t0 ts \<Longrightarrow> eligible ts s"
proof (induction ts arbitrary: s t0)
  case Nil then show ?case by simp
next
  case (Cons t ts)
  from Cons.prems have le: "unat t0 + unat (stepDelay s) \<le> unat t"
    and sp: "spaced (stepDelay s) t ts" by simp_all
  from le Cons.prems(1) have lt: "lastUpdateTime s \<le> t" by (simp add: word_le_nat_alt)
  then have "unat (t - lastUpdateTime s) = unat t - unat (lastUpdateTime s)"
    by (simp add: unat_sub)
  with le Cons.prems(1) have tm: "isTimingMet t s"
    by (simp add: isTimingMet_def word_le_nat_alt)
  have "unat (lastUpdateTime (update t s)) \<le> unat t"
    using update_timing(2)[of t s] lt by (auto simp: word_le_nat_alt)
  from Cons.IH[OF this] sp have "eligible ts (update t s)" by (simp add: update_timing(1))
  with tm show ?case by simp
qed


lemma gate_closed: "\<not> isTimingMet t s \<Longrightarrow> update t s = s"
  by (simp add: update_def processStateMachine_def)

lemma run_effective: "run (effective ts s) s = run ts s"
  by (induction ts arbitrary: s) (simp_all add: gate_closed)

lemma eligible_effective: "eligible (effective ts s) s"
  by (induction ts arbitrary: s) simp_all

lemma effective_eligible: "eligible ts s \<Longrightarrow> effective ts s = ts"
  by (induction ts arbitrary: s) simp_all

lemma visited_effective: "set (visited (effective ts s) s) = set (visited ts s)"
proof (induction ts arbitrary: s)
  case Nil then show ?case by simp
next
  case (Cons t ts)
  show ?case
  proof (cases "isTimingMet t s")
    case True
    then show ?thesis using Cons.IH[of "update t s"] by simp
  next
    case False
    have "state s \<in> set (visited ts s)" by (cases ts) simp_all
    then show ?thesis using False Cons.IH[of s] by (auto simp: gate_closed)
  qed
qed


subsection \<open>C7: a step before the interval has elapsed\<close>

text \<open>
  Claim C7, as amended. For every engine state, \<open>update\<close> called at a time \<open>now\<close> at
  which less than \<open>_stepDelay\<close> has elapsed since \<open>_lastUpdateTime\<close>, the time the engine
  last recorded, returns the state as it was: every field (protocol state, queue, current
  value, pin levels, the two sub-phase flags) is unchanged, and calling it again changes
  nothing either. The engine records the time at \<open>begin\<close>, at every clock edge, at the
  falling edge of a latch or clear pulse and in the test pattern mode.
\<close>

theorem step_before_interval_is_noop:
  "\<not> isTimingMet now s \<Longrightarrow> update now s = s \<and> update now (update now s) = update now s"
  by (simp add: update_def processStateMachine_def)

text \<open>
  The claim as stated measures the interval from the last pin-level change. The rising
  edge that ends a latch (or clear) pulse changes a pin level and records no time, so the
  step after it is not held back: with a step delay of 10, the strobe rises at 190 (the
  falling edge was recorded at 180) and the call at 191 takes the next operation from the
  queue and starts it.
\<close>

theorem step_after_unrecorded_pin_change_counterexample:
  "stepDelay latched_engine = 10 \<and>
   state latch_low_engine = NJU3711_LATCHING \<and>
   pins latch_low_engine (strobePin latch_low_engine) = False \<and>
   pins (update 190 latch_low_engine) (strobePin latch_low_engine) = True \<and>
   latched_engine = update 190 latch_low_engine \<and>
   (191 :: 32 word) - 190 < stepDelay latched_engine \<and>
   state latched_engine = NJU3711_IDLE \<and>
   queue_list latched_engine = [(NJU3711_OP_WRITE, 0x3C)] \<and>
   state (update 191 latched_engine) = NJU3711_SHIFTING \<and>
   queue_list (update 191 latched_engine) = []"
proof -
  have "latched_engine = update 190 latch_low_engine" by (simp add: latched_engine_def)
  moreover have "stepDelay latched_engine = 10 \<and>
   state latch_low_engine = NJU3711_LATCHING \<and>
   pins latch_low_engine (strobePin latch_low_engine) = False \<and>
   pins (update 190 latch_low_engine) (strobePin latch_low_engine) = True \<and>
   (191 :: 32 word) - 190 < stepDelay latched_engine \<and>
   state latched_engine = NJU3711_IDLE \<and>
   queue_list latched_engine = [(NJU3711_OP_WRITE, 0x3C)] \<and>
   state (update 191 latched_engine) = NJU3711_SHIFTING \<and>
   queue_list (update 191 latched_engine) = []" by code_simp
  ultimately show ?thesis by blast
qed

theorem step_before_interval_is_noop_witness:
  "\<not> isTimingMet 5 (busy_engine\<lparr>stepDelay := 10\<rparr>) \<and>
   update 5 (busy_engine\<lparr>stepDelay := 10\<rparr>) = busy_engine\<lparr>stepDelay := 10\<rparr> \<and>
   update 5 (update 5 (busy_engine\<lparr>stepDelay := 10\<rparr>)) = update 5 (busy_engine\<lparr>stepDelay := 10\<rparr>)"
proof -
  have h: "\<not> isTimingMet 5 (busy_engine\<lparr>stepDelay := 10\<rparr>)" by code_simp
  from step_before_interval_is_noop[OF h] h show ?thesis by simp
qed

subsection \<open>C2: a write operation\<close>

lemma write_from_idle:
  assumes inv: "engine_inv s" and idle: "state s = NJU3711_IDLE" and emp: "queueSize s = 0"
    and el: "eligible ts (snd (NJU3711_write v s))"
    and len: "19 \<le> length ts"
  shows "fst (NJU3711_write v s) \<and>
         getCurrentData (run ts (snd (NJU3711_write v s))) = v \<and>
         \<not> isBusy (run ts (snd (NJU3711_write v s)))"
proof -
  have w: "NJU3711_write v s = enqueueOperation NJU3711_OP_WRITE v s"
    using idle by (simp add: NJU3711_write_def)
  let ?s0 = "snd (enqueueOperation NJU3711_OP_WRITE v s)"
  let ?d = "snd (dequeueOperation ?s0)"
  from len obtain t ts' where ts: "ts = t # ts'" by (cases ts) auto
  from el ts w have tm: "isTimingMet t ?s0" and el': "eligible ts' (update t ?s0)" by simp_all
  note f = first_step[OF inv idle emp tm]
  let ?s1 = "update t ?s0"
  have s1: "?s1 = startOperation NJU3711_OP_WRITE v ?d" by (rule f(1))
  have inv1: "engine_inv ?s1" using f(3)
    by (simp add: s1 digitalWrite_def engine_inv_def queue_wf_def)
  have st1: "state ?s1 = NJU3711_SHIFTING" by (simp add: s1 digitalWrite_def)
  have q1: "queueSize ?s1 = 0" using f(2) by (simp add: s1 digitalWrite_def)
  have cd1: "currentData ?s1 = v" by (simp add: s1 digitalWrite_def)
  have "steps_left ?s1 \<le> 18" by (rule steps_left_le[OF inv1])
  with len ts have l1: "steps_left ?s1 \<le> length ts'" by simp
  from run_settle[OF inv1 _ q1 l1 el'] st1 cd1
  have "state (run ts' ?s1) = NJU3711_IDLE \<and> currentData (run ts' ?s1) = v \<and>
        queueSize (run ts' ?s1) = 0" by simp
  moreover have "fst (NJU3711_write v s)" using emp by (simp add: w enqueueOperation_def)
  ultimately show ?thesis by (simp add: w ts getCurrentData_def isBusy_def)
qed

text \<open>
  Claim C2. A \<open>write v\<close> submitted to an idle engine with an empty queue is accepted, and
  after any run of calls of \<open>update\<close> of which at least 19 = 1 + 2 * 8 + 2 find the
  timing gate open, in particular after 19 or more calls spaced at least \<open>_stepDelay\<close>
  apart on a clock that has not wrapped, \<open>getCurrentData\<close> is \<open>v\<close> and \<open>isBusy\<close> is
  false.
\<close>

theorem write_runs_to_completion:
  assumes inv: "engine_inv s" and idle: "state s = NJU3711_IDLE" and emp: "queueSize s = 0"
    and enough: "19 \<le> length (effective ts (snd (NJU3711_write v s))) \<or>
       (unat (lastUpdateTime s) \<le> unat t0 \<and> spaced (stepDelay s) t0 ts \<and> 19 \<le> length ts)"
  shows "fst (NJU3711_write v s) \<and>
         getCurrentData (run ts (snd (NJU3711_write v s))) = v \<and>
         \<not> isBusy (run ts (snd (NJU3711_write v s)))"
proof -
  let ?s0 = "snd (NJU3711_write v s)"
  have "19 \<le> length (effective ts ?s0)"
    using enough spaced_eligible[of ?s0 t0 ts] effective_eligible[of ts ?s0]
    by (auto simp: write_timing)
  from write_from_idle[OF inv idle emp eligible_effective this]
  show ?thesis by (simp add: run_effective)
qed

theorem write_runs_to_completion_witness:
  "engine_inv demo_engine \<and> state demo_engine = NJU3711_IDLE \<and> queueSize demo_engine = 0 \<and>
   19 \<le> length (effective (ticks 1 19) (snd (NJU3711_write 0xA5 demo_engine))) \<and>
   unat (lastUpdateTime demo_engine) \<le> unat (0 :: 32 word) \<and>
   spaced (stepDelay demo_engine) 0 (ticks 1 19) \<and> 19 \<le> length (ticks 1 19) \<and>
   getCurrentData (run (ticks 1 19) (snd (NJU3711_write 0xA5 demo_engine))) = 0xA5 \<and>
   \<not> isBusy (run (ticks 1 19) (snd (NJU3711_write 0xA5 demo_engine)))"
proof -
  have h: "engine_inv demo_engine" "state demo_engine = NJU3711_IDLE" "queueSize demo_engine = 0"
    by code_simp+
  have g: "19 \<le> length (effective (ticks 1 19) (snd (NJU3711_write 0xA5 demo_engine)))"
    "unat (lastUpdateTime demo_engine) \<le> unat (0 :: 32 word) \<and>
     spaced (stepDelay demo_engine) 0 (ticks 1 19) \<and> 19 \<le> length (ticks 1 19)"
    by code_simp+
  from g(1) have "19 \<le> length (effective (ticks 1 19) (snd (NJU3711_write 0xA5 demo_engine))) \<or>
     (unat (lastUpdateTime demo_engine) \<le> unat (0 :: 32 word) \<and>
      spaced (stepDelay demo_engine) 0 (ticks 1 19) \<and> 19 \<le> length (ticks 1 19))" by blast
  from write_runs_to_completion[OF h this] h g show ?thesis by blast
qed

subsection \<open>C1: a shift-only operation\<close>

lemma visited_shift_only:
  "engine_inv s \<Longrightarrow>
   (state s = NJU3711_SHIFTING \<and> currentOperation s = NJU3711_OP_SHIFT_ONLY) \<or> state s = NJU3711_IDLE \<Longrightarrow>
   queueSize s = 0 \<Longrightarrow> eligible ts s \<Longrightarrow> NJU3711_LATCHING \<notin> set (visited ts s)"
proof (induction ts arbitrary: s)
  case Nil then show ?case by auto
next
  case (Cons t ts)
  from Cons.prems have tm: "isTimingMet t s" and el: "eligible ts (update t s)" by simp_all
  show ?case
  proof (cases "state s = NJU3711_IDLE")
    case True
    with Cons.prems(3) have "update t s = s" by (simp add: idle_empty_step)
    with Cons.IH[of s] Cons.prems el True show ?thesis by simp
  next
    case False
    with Cons.prems(2) have sh: "state s = NJU3711_SHIFTING" and op: "currentOperation s = NJU3711_OP_SHIFT_ONLY" by auto
    have a: "(state (update t s) = NJU3711_SHIFTING \<and> currentOperation (update t s) = NJU3711_OP_SHIFT_ONLY) \<or> state (update t s) = NJU3711_IDLE"
      using sh op tm
      by (auto simp: update_def processStateMachine_def updateClock_def digitalWrite_def Let_def)
    note f = step_shifting[OF Cons.prems(1) sh tm]
    from Cons.IH[OF f(2) a _ el] f(6) Cons.prems(3) sh show ?thesis by simp
  qed
qed

lemma shift_from_idle:
  assumes inv: "engine_inv s" and idle: "state s = NJU3711_IDLE" and emp: "queueSize s = 0"
    and el: "eligible ts (snd (shift v s))" and len: "17 \<le> length ts"
  shows "fst (shift v s) \<and>
         getCurrentData (run ts (snd (shift v s))) = v \<and>
         \<not> isBusy (run ts (snd (shift v s))) \<and>
         NJU3711_LATCHING \<notin> set (visited ts (snd (shift v s)))"
proof -
  have w: "shift v s = enqueueOperation NJU3711_OP_SHIFT_ONLY v s"
    using idle by (simp add: shift_def)
  let ?s0 = "snd (enqueueOperation NJU3711_OP_SHIFT_ONLY v s)"
  let ?d = "snd (dequeueOperation ?s0)"
  from len obtain t ts' where ts: "ts = t # ts'" by (cases ts) auto
  from el ts w have tm: "isTimingMet t ?s0" and el': "eligible ts' (update t ?s0)" by simp_all
  note f = first_step[OF inv idle emp tm]
  let ?s1 = "update t ?s0"
  have s1: "?s1 = startOperation NJU3711_OP_SHIFT_ONLY v ?d" by (rule f(1))
  have inv1: "engine_inv ?s1" using f(3)
    by (simp add: s1 digitalWrite_def engine_inv_def queue_wf_def)
  have st1: "state ?s1 = NJU3711_SHIFTING" by (simp add: s1 digitalWrite_def)
  have op1: "currentOperation ?s1 = NJU3711_OP_SHIFT_ONLY" by (simp add: s1 digitalWrite_def)
  have q1: "queueSize ?s1 = 0" using f(2) by (simp add: s1 digitalWrite_def)
  have cd1: "currentData ?s1 = v" by (simp add: s1 digitalWrite_def)
  have "steps_left ?s1 \<le> 16"
    by (simp add: steps_left_def s1 digitalWrite_def)
  with len ts have l1: "steps_left ?s1 \<le> length ts'" by simp
  from run_settle[OF inv1 _ q1 l1 el'] st1 cd1
  have "state (run ts' ?s1) = NJU3711_IDLE \<and> currentData (run ts' ?s1) = v \<and>
        queueSize (run ts' ?s1) = 0" by simp
  moreover have "fst (shift v s)" using emp by (simp add: w enqueueOperation_def)
  moreover have "NJU3711_LATCHING \<notin> set (visited ts' ?s1)"
    using visited_shift_only[OF inv1 _ q1 el'] st1 op1 by simp
  moreover have "state ?s0 = NJU3711_IDLE" using idle by (simp add: enqueue_fields)
  ultimately show ?thesis by (simp add: w ts getCurrentData_def isBusy_def)
qed

text \<open>
  Claim C1, as amended. \<open>startOperation\<close> stores the payload in \<open>_currentData\<close> for a
  shift-only operation as it does for a write. So a \<open>shift v\<close> submitted to an idle
  engine with an empty queue is accepted, and after any run of calls of \<open>update\<close> of which
  at least 17 find the timing gate open \<open>getCurrentData\<close> is \<open>v\<close> (not the value
  before) and the engine is not busy; at no point of the run is the engine in the
  latching state.
\<close>

theorem shift_only_runs_to_completion:
  assumes inv: "engine_inv s" and idle: "state s = NJU3711_IDLE" and emp: "queueSize s = 0"
    and enough: "17 \<le> length (effective ts (snd (shift v s)))"
  shows "fst (shift v s) \<and>
         getCurrentData (run ts (snd (shift v s))) = v \<and>
         \<not> isBusy (run ts (snd (shift v s))) \<and>
         NJU3711_LATCHING \<notin> set (visited ts (snd (shift v s)))"
  using shift_from_idle[OF inv idle emp eligible_effective enough]
  by (simp add: run_effective visited_effective)

text \<open>
  The claim as stated fails: on a freshly constructed engine the current value is 0; after
  \<open>shift 0xA5\<close> and 17 eligible steps the engine is idle and the current value is 0xA5.
\<close>

theorem shift_only_counterexample:
  "getCurrentData demo_engine = 0 \<and>
   state demo_engine = NJU3711_IDLE \<and> queueSize demo_engine = 0 \<and>
   eligible (ticks 1 17) (snd (shift 0xA5 demo_engine)) \<and>
   \<not> isBusy (run (ticks 1 17) (snd (shift 0xA5 demo_engine))) \<and>
   getCurrentData (run (ticks 1 17) (snd (shift 0xA5 demo_engine))) = 0xA5"
  by code_simp

theorem shift_only_runs_to_completion_witness:
  "engine_inv demo_engine \<and> state demo_engine = NJU3711_IDLE \<and> queueSize demo_engine = 0 \<and>
   17 \<le> length (effective (ticks 1 17) (snd (shift 0x3C demo_engine))) \<and>
   getCurrentData (run (ticks 1 17) (snd (shift 0x3C demo_engine))) = 0x3C \<and>
   \<not> isBusy (run (ticks 1 17) (snd (shift 0x3C demo_engine))) \<and>
   NJU3711_LATCHING \<notin> set (visited (ticks 1 17) (snd (shift 0x3C demo_engine)))"
proof -
  have h: "engine_inv demo_engine" "state demo_engine = NJU3711_IDLE" "queueSize demo_engine = 0"
    "17 \<le> length (effective (ticks 1 17) (snd (shift 0x3C demo_engine)))"
    by code_simp+
  from shift_only_runs_to_completion[OF h] h show ?thesis by blast
qed

subsection \<open>C3: a clear operation\<close>

lemma run_clear_hw:
  "engine_inv s \<Longrightarrow> clearPin s \<noteq> 255 \<Longrightarrow>
   state s = NJU3711_CLEARING \<or> (state s = NJU3711_IDLE \<and> currentData s = 0) \<Longrightarrow>
   queueSize s = 0 \<Longrightarrow> steps_left s \<le> length ts \<Longrightarrow> eligible ts s \<Longrightarrow>
   state (run ts s) = NJU3711_IDLE \<and> currentData (run ts s) = 0 \<and> queueSize (run ts s) = 0"
proof (induction ts arbitrary: s)
  case Nil
  then show ?case using steps_left_pos[of s] by auto
next
  case (Cons t ts)
  from Cons.prems have tm: "isTimingMet t s" and el: "eligible ts (update t s)" by simp_all
  show ?case
  proof (cases "state s = NJU3711_IDLE")
    case True
    with Cons.prems(4) have same: "update t s = s" by (simp add: idle_empty_step)
    have "steps_left s = 0" using True by (simp add: steps_left_def)
    with Cons.IH[of s] Cons.prems el same show ?thesis by simp
  next
    case False
    with Cons.prems(3) have cl: "state s = NJU3711_CLEARING" by auto
    let ?s' = "update t s"
    note f = step_clearing[OF Cons.prems(1) cl tm]
    have g: "clearPin ?s' = clearPin s" "queueSize ?s' = queueSize s"
      "state ?s' = NJU3711_IDLE \<longrightarrow> currentData ?s' = 0"
      using cl tm Cons.prems(2)
      by (auto simp: update_def processStateMachine_def digitalWrite_def)
    from f(1) Cons.prems(5) have "steps_left ?s' \<le> length ts" by simp
    from Cons.IH[OF f(2) _ _ _ this el] f(3) g Cons.prems(2,4) show ?thesis by auto
  qed
qed

lemma step_clearing_sw:
  "state s = NJU3711_CLEARING \<Longrightarrow> clearPin s = 255 \<Longrightarrow> isTimingMet t s \<Longrightarrow> queueSize s = 0 \<Longrightarrow>
   update t s =
     snd (enqueueOperation NJU3711_OP_WRITE 0 (s\<lparr>currentData := 0, state := NJU3711_IDLE\<rparr>))"
  by (simp add: update_def processStateMachine_def enqueueOperation_def)

lemma clear_from_idle:
  assumes inv: "engine_inv s" and idle: "state s = NJU3711_IDLE" and emp: "queueSize s = 0"
    and el: "eligible ts (snd (clear s))" and len: "21 \<le> length ts"
  shows "fst (clear s) \<and>
         getCurrentData (run ts (snd (clear s))) = 0 \<and>
         \<not> isBusy (run ts (snd (clear s)))"
proof -
  have w: "clear s = enqueueOperation NJU3711_OP_CLEAR 0 s"
    using idle by (simp add: clear_def)
  let ?s0 = "snd (enqueueOperation NJU3711_OP_CLEAR 0 s)"
  let ?d = "snd (dequeueOperation ?s0)"
  from len obtain t ts' where ts: "ts = t # ts'" by (cases ts) auto
  from el ts w have tm: "isTimingMet t ?s0" and el': "eligible ts' (update t ?s0)" by simp_all
  note f = first_step[OF inv idle emp tm]
  let ?s1 = "update t ?s0"
  have s1: "?s1 = startOperation NJU3711_OP_CLEAR 0 ?d" by (rule f(1))
  have inv1: "engine_inv ?s1" using f(3) by (simp add: s1 engine_inv_def queue_wf_def)
  have st1: "state ?s1 = NJU3711_CLEARING" by (simp add: s1)
  have q1: "queueSize ?s1 = 0" using f(2) by (simp add: s1)
  have cp1: "clearPin ?s1 = clearPin s" by (simp add: s1 dequeue_fields enqueue_fields)
  have ok: "fst (clear s)" using emp by (simp add: w enqueueOperation_def)
  have fin: "state (run ts' ?s1) = NJU3711_IDLE \<and> currentData (run ts' ?s1) = 0 \<and>
        queueSize (run ts' ?s1) = 0"
  proof (cases "clearPin s = 255")
    case False
    have "steps_left ?s1 \<le> 18" by (rule steps_left_le[OF inv1])
    with len ts have l1: "steps_left ?s1 \<le> length ts'" by simp
    from run_clear_hw[OF inv1 _ _ q1 l1 el'] st1 cp1 False show ?thesis by simp
  next
    case True
    from len ts obtain t2 ts2 where ts2: "ts' = t2 # ts2" by (cases ts') auto
    from el' ts2 have tm2: "isTimingMet t2 ?s1" and el2: "eligible ts2 (update t2 ?s1)" by simp_all
    let ?s2 = "update t2 ?s1"
    define b where "b = ?s1\<lparr>currentData := 0, state := NJU3711_IDLE\<rparr>"
    have s2b: "?s2 = snd (enqueueOperation NJU3711_OP_WRITE 0 b)"
      unfolding b_def using st1 cp1 True tm2 q1 by (intro step_clearing_sw) simp_all
    have invb: "engine_inv b" using inv1 by (simp add: b_def engine_inv_def queue_wf_def)
    have stb: "state b = NJU3711_IDLE" and qb: "queueSize b = 0" using q1 by (simp_all add: b_def)
    from len ts ts2 obtain t3 ts3 where ts3: "ts2 = t3 # ts3" by (cases ts2) auto
    from el2 ts3 s2b have tm3: "isTimingMet t3 (snd (enqueueOperation NJU3711_OP_WRITE 0 b))"
      and el3: "eligible ts3 (update t3 (snd (enqueueOperation NJU3711_OP_WRITE 0 b)))" by simp_all
    note g = first_step[OF invb stb qb tm3]
    let ?s3 = "update t3 (snd (enqueueOperation NJU3711_OP_WRITE 0 b))"
    have inv3: "engine_inv ?s3" using g(3)
      by (simp add: g(1) digitalWrite_def engine_inv_def queue_wf_def)
    have st3: "state ?s3 = NJU3711_SHIFTING" by (simp add: g(1) digitalWrite_def)
    have q3: "queueSize ?s3 = 0" using g(2) by (simp add: g(1) digitalWrite_def)
    have cd3: "currentData ?s3 = 0" by (simp add: g(1) digitalWrite_def)
    have "steps_left ?s3 \<le> 18" by (rule steps_left_le[OF inv3])
    with len ts ts2 ts3 have l3: "steps_left ?s3 \<le> length ts3" by simp
    from run_settle[OF inv3 _ q3 l3 el3] st3 cd3
    show ?thesis by (simp add: ts2 ts3 s2b)
  qed
  with ok show ?thesis by (simp add: w ts getCurrentData_def isBusy_def)
qed

lemma clearing_completes:
  assumes inv: "engine_inv s" and cl: "state s = NJU3711_CLEARING" and nf: "queueSize s \<noteq> 8"
    and el: "eligible ts s"
    and len: "length ts = (if clearPin s \<noteq> 255 \<and> \<not> clearStep s then 2 else 1)"
  shows "state (run ts s) = NJU3711_IDLE \<and> getCurrentData (run ts s) = 0"
proof -
  from inv have wf: "queue_wf s" by (simp add: engine_inv_def)
  with nf have nf': "\<not> queueSize s \<ge> 8" by (simp add: size_ge8)
  show ?thesis
  proof (cases "clearPin s \<noteq> 255 \<and> \<not> clearStep s")
    case True
    with len obtain t1 t2 where ts: "ts = [t1, t2]"
      by (cases ts; cases "tl ts") auto
    from el ts have tm1: "isTimingMet t1 s" and tm2: "isTimingMet t2 (update t1 s)" by simp_all
    have s1: "update t1 s = (digitalWrite (clearPin s) False s)\<lparr>clearStep := True, lastUpdateTime := t1\<rparr>"
      using cl tm1 True by (simp add: update_def processStateMachine_def)
    show ?thesis using tm2 cl True unfolding ts
      by (simp add: s1) (simp add: update_def processStateMachine_def digitalWrite_def getCurrentData_def)
  next
    case False
    with len obtain t1 where ts: "ts = [t1]" by (cases ts) auto
    from el ts have tm1: "isTimingMet t1 s" by simp
    show ?thesis using tm1 cl False nf' unfolding ts
      by (auto simp: update_def processStateMachine_def digitalWrite_def getCurrentData_def
          enqueueOperation_def)
  qed
qed

lemma clear_at_head:
  assumes inv: "engine_inv s" and idle: "state s = NJU3711_IDLE"
    and hd: "queue_list s = (NJU3711_OP_CLEAR, d) # rest"
    and el: "eligible ts s"
    and len: "length ts = 1 + (if clearPin s \<noteq> 255 \<and> \<not> clearStep s then 2 else 1)"
  shows "state (run ts s) = NJU3711_IDLE \<and> getCurrentData (run ts s) = 0"
proof -
  from inv have wf: "queue_wf s" by (simp add: engine_inv_def)
  from hd have ne: "queueSize s \<noteq> 0" using queue_list_empty[of s] by auto
  from len obtain t ts' where ts: "ts = t # ts'" by (cases ts) auto
  from el ts have tm: "isTimingMet t s" and el': "eligible ts' (update t s)" by simp_all
  let ?d = "snd (dequeueOperation s)"
  have s1: "update t s = startOperation NJU3711_OP_CLEAR d ?d"
    using idle_step[OF idle tm wf ne] hd by simp
  have inv1: "engine_inv (update t s)" by (rule update_inv[OF inv])
  have st1: "state (update t s) = NJU3711_CLEARING" by (simp add: s1)
  have "unat (queueSize s) \<le> 8" using wf by (simp add: queue_wf_def)
  moreover have "unat (queueSize ?d) = unat (queueSize s) - 1"
    using ne by (simp add: dequeueOperation_def unat_size_pred)
  moreover have "0 < unat (queueSize s)" using ne by (simp add: unat_gt_0)
  ultimately have "unat (queueSize ?d) \<noteq> 8" by simp
  then have nf: "queueSize (update t s) \<noteq> 8" by (auto simp: s1)
  have same: "clearPin (update t s) = clearPin s" "clearStep (update t s) = clearStep s"
    by (simp_all add: s1 dequeueOperation_def)
  from len ts have len': "length ts' =
      (if clearPin (update t s) \<noteq> 255 \<and> \<not> clearStep (update t s) then 2 else 1)"
    by (simp add: same)
  from clearing_completes[OF inv1 st1 nf el' len'] show ?thesis by (simp add: ts)
qed

text \<open>
  Claim C3. With a clear pin (\<open>_clearPin\<close> other than 255) and without one:
  \<^item> a \<open>clear\<close> submitted to an idle engine with an empty queue is accepted, and after any
    run of calls of \<open>update\<close> of which at least 21 find the timing gate open (the
    software path needs the clear's 2 steps and the 19 of the write it redirects to)
    \<open>getCurrentData\<close> is 0 and the engine is not busy;
  \<^item> whenever a clear is the oldest pending operation of an idle engine, whatever else is
    pending, the engine is idle again, with \<open>getCurrentData\<close> equal to 0, after the 2 or
    3 effective steps the clear takes from its dequeue;
  \<^item> whenever the engine is in the clearing state and the queue is not full, it is idle
    again, with \<open>getCurrentData\<close> equal to 0, after the 1 or 2 effective steps left.
\<close>

theorem clear_runs_to_completion:
  assumes inv: "engine_inv s"
  shows "(state s = NJU3711_IDLE \<and> queueSize s = 0 \<and>
            21 \<le> length (effective ts (snd (clear s))) \<longrightarrow>
          fst (clear s) \<and> getCurrentData (run ts (snd (clear s))) = 0 \<and>
          \<not> isBusy (run ts (snd (clear s)))) \<and>
         (state s = NJU3711_IDLE \<and> queue_list s = (NJU3711_OP_CLEAR, d) # rest \<and>
            length (effective ts s) =
              1 + (if clearPin s \<noteq> 255 \<and> \<not> clearStep s then 2 else 1) \<longrightarrow>
          state (run ts s) = NJU3711_IDLE \<and> getCurrentData (run ts s) = 0) \<and>
         (state s = NJU3711_CLEARING \<and> getQueueSize s \<noteq> 8 \<and>
            length (effective ts s) = (if clearPin s \<noteq> 255 \<and> \<not> clearStep s then 2 else 1) \<longrightarrow>
          state (run ts s) = NJU3711_IDLE \<and> getCurrentData (run ts s) = 0)"
proof -
  have c: "state s = NJU3711_IDLE \<and> queue_list s = (NJU3711_OP_CLEAR, d) # rest \<and>
            length (effective ts s) =
              1 + (if clearPin s \<noteq> 255 \<and> \<not> clearStep s then 2 else 1) \<longrightarrow>
          state (run ts s) = NJU3711_IDLE \<and> getCurrentData (run ts s) = 0"
  proof
    assume h: "state s = NJU3711_IDLE \<and> queue_list s = (NJU3711_OP_CLEAR, d) # rest \<and>
            length (effective ts s) =
              1 + (if clearPin s \<noteq> 255 \<and> \<not> clearStep s then 2 else 1)"
    then have idle: "state s = NJU3711_IDLE" and hd: "queue_list s = (NJU3711_OP_CLEAR, d) # rest"
      and len: "length (effective ts s) =
              1 + (if clearPin s \<noteq> 255 \<and> \<not> clearStep s then 2 else 1)" by simp_all
    from clear_at_head[OF inv idle hd eligible_effective len]
    show "state (run ts s) = NJU3711_IDLE \<and> getCurrentData (run ts s) = 0"
      by (simp add: run_effective)
  qed
  have a: "state s = NJU3711_IDLE \<and> queueSize s = 0 \<and>
            21 \<le> length (effective ts (snd (clear s))) \<longrightarrow>
          fst (clear s) \<and> getCurrentData (run ts (snd (clear s))) = 0 \<and>
          \<not> isBusy (run ts (snd (clear s)))"
  proof
    assume h: "state s = NJU3711_IDLE \<and> queueSize s = 0 \<and>
            21 \<le> length (effective ts (snd (clear s)))"
    then have idle: "state s = NJU3711_IDLE" and emp: "queueSize s = 0"
      and len: "21 \<le> length (effective ts (snd (clear s)))" by simp_all
    from clear_from_idle[OF inv idle emp eligible_effective len]
    show "fst (clear s) \<and> getCurrentData (run ts (snd (clear s))) = 0 \<and>
          \<not> isBusy (run ts (snd (clear s)))" by (simp add: run_effective)
  qed
  have b: "state s = NJU3711_CLEARING \<and> getQueueSize s \<noteq> 8 \<and>
            length (effective ts s) = (if clearPin s \<noteq> 255 \<and> \<not> clearStep s then 2 else 1) \<longrightarrow>
          state (run ts s) = NJU3711_IDLE \<and> getCurrentData (run ts s) = 0"
  proof
    assume h: "state s = NJU3711_CLEARING \<and> getQueueSize s \<noteq> 8 \<and>
            length (effective ts s) = (if clearPin s \<noteq> 255 \<and> \<not> clearStep s then 2 else 1)"
    then have cl: "state s = NJU3711_CLEARING" and nf: "queueSize s \<noteq> 8"
      and len: "length (effective ts s) = (if clearPin s \<noteq> 255 \<and> \<not> clearStep s then 2 else 1)"
      by (simp_all add: getQueueSize_def)
    from clearing_completes[OF inv cl nf eligible_effective len]
    show "state (run ts s) = NJU3711_IDLE \<and> getCurrentData (run ts s) = 0"
      by (simp add: run_effective)
  qed
  from a b c show ?thesis by blast
qed

theorem clear_runs_to_completion_witness:
  "engine_inv written_engine \<and> clearPin written_engine = 255 \<and>
   getCurrentData written_engine = 0xA5 \<and>
   state written_engine = NJU3711_IDLE \<and> queueSize written_engine = 0 \<and>
   21 \<le> length (effective (ticks 20 21) (snd (clear written_engine))) \<and>
   getCurrentData (run (ticks 20 21) (snd (clear written_engine))) = 0 \<and>
   \<not> isBusy (run (ticks 20 21) (snd (clear written_engine))) \<and>
   engine_inv written_hw_engine \<and> clearPin written_hw_engine = 5 \<and>
   getCurrentData written_hw_engine = 0xA5 \<and>
   state written_hw_engine = NJU3711_IDLE \<and> queueSize written_hw_engine = 0 \<and>
   21 \<le> length (effective (ticks 20 21) (snd (clear written_hw_engine))) \<and>
   getCurrentData (run (ticks 20 21) (snd (clear written_hw_engine))) = 0 \<and>
   \<not> isBusy (run (ticks 20 21) (snd (clear written_hw_engine))) \<and>
   engine_inv clearing_engine \<and> state clearing_engine = NJU3711_CLEARING \<and>
   getQueueSize clearing_engine \<noteq> 8 \<and> getCurrentData clearing_engine = 0xA5 \<and>
   length (effective (ticks 21 2) clearing_engine) = 2 \<and>
   state (run (ticks 21 2) clearing_engine) = NJU3711_IDLE \<and>
   getCurrentData (run (ticks 21 2) clearing_engine) = 0 \<and>
   engine_inv clear_pending_engine \<and> state clear_pending_engine = NJU3711_IDLE \<and>
   queue_list clear_pending_engine = [(NJU3711_OP_CLEAR, 0), (NJU3711_OP_WRITE, 0x77)] \<and>
   getCurrentData clear_pending_engine = 0xA5 \<and>
   length (effective (ticks 20 2) clear_pending_engine) = 2 \<and>
   state (run (ticks 20 2) clear_pending_engine) = NJU3711_IDLE \<and>
   getCurrentData (run (ticks 20 2) clear_pending_engine) = 0"
proof -
  have d: "engine_inv clear_pending_engine" "getCurrentData clear_pending_engine = 0xA5"
    "length (effective (ticks 20 2) clear_pending_engine) = 2"
    "state clear_pending_engine = NJU3711_IDLE \<and>
     queue_list clear_pending_engine = (NJU3711_OP_CLEAR, 0) # [(NJU3711_OP_WRITE, 0x77)] \<and>
     length (effective (ticks 20 2) clear_pending_engine) =
       1 + (if clearPin clear_pending_engine \<noteq> 255 \<and> \<not> clearStep clear_pending_engine
            then 2 else 1)"
    by code_simp+
  from clear_runs_to_completion[OF d(1), of "ticks 20 2" 0 "[(NJU3711_OP_WRITE, 0x77)]"] d(4)
  have 4: "state (run (ticks 20 2) clear_pending_engine) = NJU3711_IDLE \<and>
   getCurrentData (run (ticks 20 2) clear_pending_engine) = 0" by blast
  have a: "engine_inv written_engine" "clearPin written_engine = 255"
    "getCurrentData written_engine = 0xA5"
    "state written_engine = NJU3711_IDLE \<and> queueSize written_engine = 0 \<and>
     21 \<le> length (effective (ticks 20 21) (snd (clear written_engine)))"
    by code_simp+
  have b: "engine_inv written_hw_engine" "clearPin written_hw_engine = 5"
    "getCurrentData written_hw_engine = 0xA5"
    "state written_hw_engine = NJU3711_IDLE \<and> queueSize written_hw_engine = 0 \<and>
     21 \<le> length (effective (ticks 20 21) (snd (clear written_hw_engine)))"
    by code_simp+
  have c: "engine_inv clearing_engine" "getCurrentData clearing_engine = 0xA5"
    "length (effective (ticks 21 2) clearing_engine) = 2"
    "state clearing_engine = NJU3711_CLEARING \<and> getQueueSize clearing_engine \<noteq> 8 \<and>
     length (effective (ticks 21 2) clearing_engine) =
       (if clearPin clearing_engine \<noteq> 255 \<and> \<not> clearStep clearing_engine then 2 else 1)"
    by code_simp+
  from clear_runs_to_completion[OF a(1), of "ticks 20 21"] a(4)
  have 1: "getCurrentData (run (ticks 20 21) (snd (clear written_engine))) = 0 \<and>
   \<not> isBusy (run (ticks 20 21) (snd (clear written_engine)))" by blast
  from clear_runs_to_completion[OF b(1), of "ticks 20 21"] b(4)
  have 2: "getCurrentData (run (ticks 20 21) (snd (clear written_hw_engine))) = 0 \<and>
   \<not> isBusy (run (ticks 20 21) (snd (clear written_hw_engine)))" by blast
  from clear_runs_to_completion[OF c(1), of "ticks 21 2"] c(4)
  have 3: "state (run (ticks 21 2) clearing_engine) = NJU3711_IDLE \<and>
   getCurrentData (run (ticks 21 2) clearing_engine) = 0" by blast
  from a b c d 1 2 3 4 show ?thesis by blast
qed

subsection \<open>C9: every operation completes in a bounded number of steps\<close>

lemma start_not_test:
  "state s \<noteq> NJU3711_TEST_PATTERN \<Longrightarrow> state (startOperation op d s) \<noteq> NJU3711_TEST_PATTERN"
  by (cases op) (simp_all add: digitalWrite_def)

lemma update_not_test:
  "state s \<noteq> NJU3711_TEST_PATTERN \<Longrightarrow> state (update t s) \<noteq> NJU3711_TEST_PATTERN"
  by (cases "state s")
     (auto simp: update_def processStateMachine_def updateClock_def digitalWrite_def Let_def
        enqueueOperation_def dequeueOperation_def start_not_test
        split: prod.splits option.splits bool.splits)



text \<open>
  The claim as stated, for every state, fails in the test pattern mode, which is a state
  of the engine: a test pattern whose delay has not elapsed stays in its state for as long
  as it is stepped, and one with a pattern type other than 1 .. 4 stays there for ever.
\<close>

lemma test_pattern_stuck:
  "state s = NJU3711_TEST_PATTERN \<Longrightarrow> testPatternType s \<notin> {1, 2, 3, 4} \<Longrightarrow>
   state (run ts s) = NJU3711_TEST_PATTERN"
proof (induction ts arbitrary: s)
  case Nil then show ?case by simp
next
  case (Cons t ts)
  have "state (update t s) = NJU3711_TEST_PATTERN \<and> testPatternType (update t s) = testPatternType s"
    using Cons.prems by (simp add: update_def processStateMachine_def testPatternTick_def)
  with Cons.IH[of "update t s"] Cons.prems(2) show ?case by simp
qed



subsection \<open>C10: a submission stops the test pattern\<close>

lemma visited_not_test:
  "state s \<noteq> NJU3711_TEST_PATTERN \<Longrightarrow> NJU3711_TEST_PATTERN \<notin> set (visited ts s)"
  by (induction ts arbitrary: s) (auto simp: update_not_test)

text \<open>
  Claim C10. In the test pattern state every submission (\<open>write\<close>, \<open>shift\<close>, \<open>latch\<close>,
  \<open>clear\<close>) first returns the engine to idle and then enqueues as it does from idle: the
  call succeeds unless the queue is full, the operation is then the last pending one, and
  no run of steps after the call passes through the test pattern state again, so the
  pattern writes nothing more.
\<close>

theorem submit_stops_test_pattern:
  assumes wf: "queue_wf s" and tp: "state s = NJU3711_TEST_PATTERN"
  shows "state (snd (submit x s)) = NJU3711_IDLE \<and>
         submit x s =
           enqueueOperation (fst (payload x)) (snd (payload x)) (s\<lparr>state := NJU3711_IDLE\<rparr>) \<and>
         (fst (submit x s) \<longleftrightarrow> getQueueSize s \<noteq> 8) \<and>
         (fst (submit x s) \<longrightarrow> queue_list (snd (submit x s)) = queue_list s @ [payload x]) \<and>
         (\<forall>ts. NJU3711_TEST_PATTERN \<notin> set (visited ts (snd (submit x s))))"
proof -
  have e: "submit x s =
      enqueueOperation (fst (payload x)) (snd (payload x)) (s\<lparr>state := NJU3711_IDLE\<rparr>)"
    using tp by (simp add: submit_enqueue stopTestPattern_def)
  have st: "state (snd (submit x s)) = NJU3711_IDLE" by (simp add: e enqueue_fields)
  have wf': "queue_wf (s\<lparr>state := NJU3711_IDLE\<rparr>)" using wf by (simp add: queue_wf_def)
  have ql: "queue_list (s\<lparr>state := NJU3711_IDLE\<rparr>) = queue_list s" by (simp add: queue_list_def)
  have a: "fst (submit x s) \<longleftrightarrow> getQueueSize s \<noteq> 8"
    using size_ge8[OF wf] by (simp add: e enqueueOperation_def getQueueSize_def)
  have b: "fst (submit x s) \<longrightarrow> queue_list (snd (submit x s)) = queue_list s @ [payload x]"
  proof
    assume "fst (submit x s)"
    then have "\<not> queueSize (s\<lparr>state := NJU3711_IDLE\<rparr>) \<ge> 8"
      by (simp add: e enqueueOperation_def split: if_splits)
    from enqueue_list[OF wf' this] show "queue_list (snd (submit x s)) = queue_list s @ [payload x]"
      by (simp add: e ql)
  qed
  have c: "\<forall>ts. NJU3711_TEST_PATTERN \<notin> set (visited ts (snd (submit x s)))"
    using st by (simp add: visited_not_test)
  from st e a b c show ?thesis by blast
qed

theorem submit_stops_test_pattern_witness:
  "queue_wf tp_engine \<and> state tp_engine = NJU3711_TEST_PATTERN \<and> getQueueSize tp_engine \<noteq> 8 \<and>
   queue_list tp_engine = [] \<and>
   state (snd (submit (Write 0x0F) tp_engine)) = NJU3711_IDLE \<and>
   fst (submit (Write 0x0F) tp_engine) \<and>
   queue_list (snd (submit (Write 0x0F) tp_engine)) = [(NJU3711_OP_WRITE, 0x0F)] \<and>
   NJU3711_TEST_PATTERN \<notin> set (visited (ticks 1 19) (snd (submit (Write 0x0F) tp_engine)))"
proof -
  have a: "queue_wf tp_engine" "state tp_engine = NJU3711_TEST_PATTERN"
    "getQueueSize tp_engine \<noteq> 8" "queue_list tp_engine = []"
    by code_simp+
  note 1 = submit_stops_test_pattern[OF a(1,2), of "Write 0x0F",
      unfolded a(4) payload.simps append_Nil fst_conv snd_conv]
  from 1 a show ?thesis by blast
qed

section \<open>The multiplexer\<close>

subsection \<open>What the layers below leave alone\<close>

lemma engine_frame_refl: "engine_frame s s"
  by (simp add: engine_frame_def)

lemma engine_frame_trans: "engine_frame s s' \<Longrightarrow> engine_frame s' s'' \<Longrightarrow> engine_frame s s''"
  by (simp add: engine_frame_def)

lemma enqueue_frame:
  "engine_frame s (snd (enqueueOperation op d s))"
  "NJU3711.more (snd (enqueueOperation op d s)) = NJU3711.more s"
  "pins (snd (enqueueOperation op d s)) = pins s"
  by (simp_all add: engine_frame_def enqueueOperation_def)

lemma dequeue_frame:
  "engine_frame s (snd (dequeueOperation s))"
  "NJU3711.more (snd (dequeueOperation s)) = NJU3711.more s"
  by (simp_all add: engine_frame_def dequeueOperation_def)

lemma start_frame:
  "engine_frame s (startOperation op d s)"
  "NJU3711.more (startOperation op d s) = NJU3711.more s"
  by (cases op; simp add: engine_frame_def digitalWrite_def)+

lemma write_frame:
  "engine_frame s (snd (NJU3711_write v s))"
  "NJU3711.more (snd (NJU3711_write v s)) = NJU3711.more s"
  "pins (snd (NJU3711_write v s)) = pins s"
  by (simp_all add: engine_frame_def NJU3711_write_def stopTestPattern_def enqueueOperation_def)

lemma testPattern_frame:
  "engine_frame s (testPatternTick t s)"
  "NJU3711.more (testPatternTick t s) = NJU3711.more s"
  using write_frame(1,2)
  by (auto simp: testPatternTick_def engine_frame_def Let_def)

lemma update_frame:
  "engine_frame s (update t s)"
  "NJU3711.more (update t s) = NJU3711.more s"
proof -
  show "engine_frame s (update t s)"
  proof (cases "state s")
    case NJU3711_IDLE
    obtain r s1 where d: "dequeueOperation s = (r, s1)" by fastforce
    then have f: "engine_frame s s1" using dequeue_frame(1)[of s] by simp
    show ?thesis
      using NJU3711_IDLE d f engine_frame_trans[OF f start_frame(1)]
      by (cases r) (auto simp: update_def processStateMachine_def engine_frame_refl)
  next
    case NJU3711_TEST_PATTERN
    then show ?thesis
      by (simp add: update_def processStateMachine_def engine_frame_refl testPattern_frame)
  qed (auto simp: update_def processStateMachine_def updateClock_def digitalWrite_def Let_def
        engine_frame_def enqueueOperation_def split: prod.splits bool.splits)
  show "NJU3711.more (update t s) = NJU3711.more s"
  proof (cases "state s")
    case NJU3711_IDLE
    obtain r s1 where d: "dequeueOperation s = (r, s1)" by fastforce
    then have f: "NJU3711.more s1 = NJU3711.more s" using dequeue_frame(2)[of s] by simp
    show ?thesis
      using NJU3711_IDLE d f
      by (cases r) (auto simp: update_def processStateMachine_def start_frame(2))
  next
    case NJU3711_TEST_PATTERN
    then show ?thesis
      by (simp add: update_def processStateMachine_def testPattern_frame)
  qed (auto simp: update_def processStateMachine_def updateClock_def digitalWrite_def Let_def
        enqueueOperation_def split: prod.splits bool.splits)
qed

lemma more_7Segment:
  "NJU3711.more s' = NJU3711.more s \<Longrightarrow> NJU3711_7Segment.more s' = NJU3711_7Segment.more s"
  by (cases s; cases s') simp

lemma multi_fields:
  assumes "NJU3711_7Segment.more s' = NJU3711_7Segment.more s"
  shows "digitPins s' = digitPins s" and "digitData s' = digitData s"
    and "digitDP s' = digitDP s" and "digitEnabled s' = digitEnabled s"
    and "mplexState s' = mplexState s" and "currentDigit s' = currentDigit s"
    and "nextDigit s' = nextDigit s" and "multiplexEnabled s' = multiplexEnabled s"
  using assms by (cases s; cases s'; simp)+

lemma display_frame:
  "engine_frame s (snd (displayDigit digit showDP s))"
  "NJU3711_7Segment.more (snd (displayDigit digit showDP s)) = NJU3711_7Segment.more s"
  "engine_frame s (snd (displayBlank s))"
  "NJU3711_7Segment.more (snd (displayBlank s)) = NJU3711_7Segment.more s"
  by (simp_all add: displayDigit_def displayBlank_def stopAnimation_def Let_def engine_frame_def
      NJU3711_write_def stopTestPattern_def enqueueOperation_def)

lemma engine_frame_anim_fields:
  "engine_frame s (x\<lparr>animationStep := a\<rparr>) = engine_frame s x"
  "engine_frame s (x\<lparr>lastAnimationUpdate := b\<rparr>) = engine_frame s x"
  by (simp_all add: engine_frame_def)

lemma animation_frame:
  "engine_frame s (processAnimation t s)"
  "NJU3711_7Segment.more (processAnimation t s) = NJU3711_7Segment.more s"
proof -
  have w: "\<And>v. engine_frame s (snd (NJU3711_write v s))"
    "\<And>v. NJU3711_7Segment.more (snd (NJU3711_write v s)) = NJU3711_7Segment.more s"
    by (simp add: write_frame, rule more_7Segment, simp add: write_frame)
  show "engine_frame s (processAnimation t s)"
    by (cases "currentAnimation s")
       (simp_all add: processAnimation_def Let_def engine_frame_anim_fields w
          display_frame engine_frame_refl)
  show "NJU3711_7Segment.more (processAnimation t s) = NJU3711_7Segment.more s"
    by (cases "currentAnimation s")
       (simp_all add: processAnimation_def Let_def w display_frame)
qed

lemma update_7Segment_frame:
  "engine_frame s (update_7Segment t s)"
  "NJU3711_7Segment.more (update_7Segment t s) = NJU3711_7Segment.more s"
proof -
  have a: "engine_frame s (update t s)" and b: "NJU3711_7Segment.more (update t s) = NJU3711_7Segment.more s"
    by (simp add: update_frame, rule more_7Segment, simp add: update_frame)
  have c: "engine_frame (update t s) (processAnimation t (update t s))"
    and d: "NJU3711_7Segment.more (processAnimation t (update t s)) = NJU3711_7Segment.more (update t s)"
    by (rule animation_frame)+
  show "engine_frame s (update_7Segment t s)"
    using a engine_frame_trans[OF a c] by (simp add: update_7Segment_def Let_def)
  show "NJU3711_7Segment.more (update_7Segment t s) = NJU3711_7Segment.more s"
    using b d by (simp add: update_7Segment_def Let_def)
qed

lemma write_multi_fields:
  "NJU3711_7Segment.more (snd (NJU3711_write v s)) = NJU3711_7Segment.more s"
  by (rule more_7Segment) (simp add: write_frame)

subsection \<open>Select lines\<close>

lemma upt3: "[0 ..< 3] = [0, 1, 2]"
  by (simp add: upt_rec)

lemma list3: "length xs = 3 \<Longrightarrow> \<exists>a b c. xs = [a, b, c]"
  by (cases xs; cases "tl xs"; cases "tl (tl xs)") auto

lemma unat_mod3: "unat (of_nat (n mod 3) :: 8 word) = n mod 3"
  by (simp add: unat_of_nat)

lemma frame_active_lines:
  assumes fr: "engine_frame s s'" and mo: "NJU3711_7Segment.more s' = NJU3711_7Segment.more s"
    and sep: "pins_separate s" and len: "length (digitPins s) = 3"
  shows "active_lines s' = active_lines s"
proof -
  from len obtain a b c where dp: "digitPins s = [a, b, c]" using list3 by blast
  have dp': "digitPins s' = [a, b, c]" using multi_fields(1)[OF mo] dp by simp
  from sep dp have "a \<notin> {dataPin s, clockPin s, strobePin s, clearPin s}"
    "b \<notin> {dataPin s, clockPin s, strobePin s, clearPin s}"
    "c \<notin> {dataPin s, clockPin s, strobePin s, clearPin s}"
    by (auto simp: pins_separate_def)
  with fr have "pins s' a = pins s a" "pins s' b = pins s b" "pins s' c = pins s c"
    unfolding engine_frame_def by blast+
  then show ?thesis by (simp add: active_lines_def upt3 dp dp')
qed

lemma frame_mplex_inv:
  assumes fr: "engine_frame s s'" and mo: "NJU3711_7Segment.more s' = NJU3711_7Segment.more s"
    and inv: "mplex_inv s"
  shows "mplex_inv s'"
proof -
  from inv have sep: "pins_separate s" and len: "length (digitPins s) = 3"
    by (simp_all add: mplex_inv_def mplex_wf_def)
  note al = frame_active_lines[OF fr mo sep len]
  note mf = multi_fields[OF mo]
  have "pins_separate s'" using sep fr by (simp add: pins_separate_def engine_frame_def mf)
  moreover have "mplex_wf s'" using inv by (simp add: mplex_inv_def mplex_wf_def mf)
  ultimately show ?thesis using inv by (simp add: mplex_inv_def al mf)
qed

lemma newly_selected_same: "active_lines s' = active_lines s \<Longrightarrow> newly_selected s s' = []"
  by (simp add: newly_selected_def)

lemma deselect_lines:
  "length (digitPins s) = 3 \<Longrightarrow> active_lines (deselectAllDigits s) = []"
proof -
  assume "length (digitPins s) = 3"
  then obtain a b c where dp: "digitPins s = [a, b, c]" using list3 by blast
  then show ?thesis
    by (simp add: active_lines_def deselectAllDigits_def upt3 digitalWrite_def)
qed

lemma deselect_fields:
  "digitPins (deselectAllDigits s) = digitPins s"
  "dataPin (deselectAllDigits s) = dataPin s"
  "clockPin (deselectAllDigits s) = clockPin s"
  "strobePin (deselectAllDigits s) = strobePin s"
  "clearPin (deselectAllDigits s) = clearPin s"
  "currentDigit (deselectAllDigits s) = currentDigit s"
  "nextDigit (deselectAllDigits s) = nextDigit s"
  "digitData (deselectAllDigits s) = digitData s"
  "digitDP (deselectAllDigits s) = digitDP s"
  "digitEnabled (deselectAllDigits s) = digitEnabled s"
  by (simp_all add: deselectAllDigits_def upt3 digitalWrite_def)

lemma select_lines:
  assumes len: "length (digitPins s) = 3" and d: "distinct (digitPins s)"
    and n: "unat n < 3" and dark: "active_lines s = []"
  shows "active_lines (selectDigit n s) = [unat n]"
proof -
  from len obtain a b c where dp: "digitPins s = [a, b, c]" using list3 by blast
  from n have n3: "n < 3" by (simp add: word_less_nat_alt)
  from n have "unat n = 0 \<or> unat n = 1 \<or> unat n = 2" by arith
  then show ?thesis using dp d dark n3
    by (auto simp: active_lines_def selectDigit_def upt3 digitalWrite_def split: if_splits)
qed

lemma select_fields:
  "digitPins (selectDigit n s) = digitPins s"
  "dataPin (selectDigit n s) = dataPin s"
  "clockPin (selectDigit n s) = clockPin s"
  "strobePin (selectDigit n s) = strobePin s"
  "clearPin (selectDigit n s) = clearPin s"
  "currentDigit (selectDigit n s) = currentDigit s"
  "nextDigit (selectDigit n s) = nextDigit s"
  "digitData (selectDigit n s) = digitData s"
  "digitDP (selectDigit n s) = digitDP s"
  "digitEnabled (selectDigit n s) = digitEnabled s"
  by (simp_all add: selectDigit_def digitalWrite_def)

lemma active_lines_mplex_fields:
  "active_lines (s\<lparr>mplexState := m\<rparr>) = active_lines s"
  "active_lines (s\<lparr>lastStateTime := l\<rparr>) = active_lines s"
  "active_lines (s\<lparr>nextDigit := n\<rparr>) = active_lines s"
  "active_lines (s\<lparr>currentDigit := c\<rparr>) = active_lines s"
  "active_lines (s\<lparr>lastMultiplexTime := l\<rparr>) = active_lines s"
  by (simp_all add: active_lines_def)

lemma pins_separate_mplex_fields:
  "pins_separate (s\<lparr>mplexState := m\<rparr>) = pins_separate s"
  "pins_separate (s\<lparr>lastStateTime := l\<rparr>) = pins_separate s"
  "pins_separate (s\<lparr>nextDigit := n\<rparr>) = pins_separate s"
  "pins_separate (s\<lparr>currentDigit := c\<rparr>) = pins_separate s"
  "pins_separate (s\<lparr>lastMultiplexTime := l\<rparr>) = pins_separate s"
  by (simp_all add: pins_separate_def)

lemma sel_step_same:
  "active_lines s' = active_lines s \<Longrightarrow> currentDigit s' = currentDigit s \<Longrightarrow> sel_step s s'"
  by (simp add: sel_step_def newly_selected_same)

lemma mplex_step:
  assumes inv: "mplex_inv s"
  shows "mplex_inv (multiplexDisplay t s) \<and> sel_step s (multiplexDisplay t s)"
proof -
  from inv have wf: "mplex_wf s" and sep: "pins_separate s"
    and dark: "dark_phase (mplexState s) \<longrightarrow> active_lines s = []"
    and nxt: "next_chosen (mplexState s) \<longrightarrow> unat (nextDigit s) = (unat (currentDigit s) + 1) mod 3"
    and cur: "set (active_lines s) \<subseteq> {unat (currentDigit s)}"
    by (simp_all add: mplex_inv_def)
  from wf have len: "length (digitPins s) = 3" and n3: "unat (nextDigit s) < 3"
    by (simp_all add: mplex_wf_def)
  from sep have dist: "distinct (digitPins s)" by (simp add: pins_separate_def)
  note flds = active_lines_mplex_fields pins_separate_mplex_fields
  show ?thesis
  proof (cases "mplexState s")
    case MPLEX_IDLE
    have "mplex_inv (s\<lparr>mplexState := MPLEX_TURN_OFF_DIGITS, lastStateTime := t\<rparr>)"
      using wf sep cur
      by (simp add: mplex_inv_def mplex_wf_def flds dark_phase_def next_chosen_def)
    moreover have "sel_step s (s\<lparr>mplexState := MPLEX_TURN_OFF_DIGITS, lastStateTime := t\<rparr>)"
      by (rule sel_step_same) (simp_all add: flds)
    moreover have "sel_step s s" by (rule sel_step_same) simp_all
    ultimately show ?thesis using MPLEX_IDLE inv by (simp add: multiplexDisplay_def)
  next
    case MPLEX_TURN_OFF_DIGITS
    let ?s' = "(deselectAllDigits s)\<lparr>mplexState := MPLEX_WAIT_BLANKING, lastStateTime := t\<rparr>"
    have al: "active_lines ?s' = []"
      using deselect_lines[OF len] by (simp add: flds)
    have m: "multiplexDisplay t s = ?s'"
      using MPLEX_TURN_OFF_DIGITS by (simp add: multiplexDisplay_def)
    have "mplex_inv ?s'" using wf sep al
      by (simp add: mplex_inv_def mplex_wf_def pins_separate_def
          deselect_fields dark_phase_def next_chosen_def)
    moreover have "sel_step s ?s'" using al
      by (simp add: sel_step_def newly_selected_def deselect_fields)
    ultimately show ?thesis by (simp add: m)
  next
    case MPLEX_WAIT_BLANKING
    with dark have d0: "active_lines s = []" by (simp add: dark_phase_def)
    let ?s' = "s\<lparr>nextDigit := of_nat ((unat (currentDigit s) + 1) mod 3),
                  mplexState := MPLEX_WRITE_DATA\<rparr>"
    have "mplex_inv ?s'"
      using wf sep d0
      by (simp add: mplex_inv_def mplex_wf_def flds dark_phase_def next_chosen_def unat_mod3)
    moreover have "sel_step s ?s'" by (rule sel_step_same) (simp_all add: flds)
    moreover have "sel_step s s" by (rule sel_step_same) simp_all
    ultimately show ?thesis using MPLEX_WAIT_BLANKING inv by (simp add: multiplexDisplay_def)
  next
    case MPLEX_WRITE_DATA
    with dark nxt have d0: "active_lines s = []"
      and nx: "unat (nextDigit s) = (unat (currentDigit s) + 1) mod 3"
      by (simp_all add: dark_phase_def next_chosen_def)
    let ?w = "\<lambda>v. snd (NJU3711_write v s)"
    have f: "\<And>v. mplex_inv (?w v)" "\<And>v. active_lines (?w v) = active_lines s"
      "\<And>v. currentDigit (?w v) = currentDigit s" "\<And>v. nextDigit (?w v) = nextDigit s"
      "\<And>v. mplexState (?w v) = mplexState s"
      using frame_mplex_inv[OF write_frame(1) write_multi_fields inv]
        frame_active_lines[OF write_frame(1) write_multi_fields sep len]
        multi_fields[OF write_multi_fields]
      by simp_all
    have g: "\<And>v. mplex_inv ((?w v)\<lparr>mplexState := MPLEX_WAIT_DATA, lastStateTime := t\<rparr>)"
    proof -
      fix v
      from f(1)[of v] have "mplex_wf (?w v)" "pins_separate (?w v)" by (simp_all add: mplex_inv_def)
      then show "mplex_inv ((?w v)\<lparr>mplexState := MPLEX_WAIT_DATA, lastStateTime := t\<rparr>)"
        using d0 nx
        by (simp add: mplex_inv_def mplex_wf_def flds dark_phase_def next_chosen_def f(2,3,4))
    qed
    have h: "\<And>v. sel_step s ((?w v)\<lparr>mplexState := MPLEX_WAIT_DATA, lastStateTime := t\<rparr>)"
      by (rule sel_step_same) (simp_all add: flds f(2,3))
    have "sel_step s s" by (rule sel_step_same) simp_all
    then show ?thesis using MPLEX_WRITE_DATA inv g h
      by (simp add: multiplexDisplay_def Let_def)
  next
    case MPLEX_WAIT_DATA
    with dark nxt have d0: "active_lines s = []"
      and nx: "unat (nextDigit s) = (unat (currentDigit s) + 1) mod 3"
      by (simp_all add: dark_phase_def next_chosen_def)
    have "mplex_inv (s\<lparr>mplexState := MPLEX_TURN_ON_DIGIT\<rparr>)"
      using wf sep d0 nx
      by (simp add: mplex_inv_def mplex_wf_def flds dark_phase_def next_chosen_def)
    moreover have "sel_step s (s\<lparr>mplexState := MPLEX_TURN_ON_DIGIT\<rparr>)"
      by (rule sel_step_same) (simp_all add: flds)
    moreover have "sel_step s s" by (rule sel_step_same) simp_all
    ultimately show ?thesis using MPLEX_WAIT_DATA inv by (simp add: multiplexDisplay_def)
  next
    case MPLEX_TURN_ON_DIGIT
    with dark nxt have d0: "active_lines s = []"
      and nx: "unat (nextDigit s) = (unat (currentDigit s) + 1) mod 3"
      by (simp_all add: dark_phase_def next_chosen_def)
    let ?s' = "(selectDigit (nextDigit s) s)\<lparr>currentDigit := nextDigit s,
        mplexState := MPLEX_DISPLAY_DIGIT, lastMultiplexTime := t\<rparr>"
    have al: "active_lines ?s' = [unat (nextDigit s)]"
      using select_lines[OF len dist n3 d0] by (simp add: flds)
    have m: "multiplexDisplay t s = ?s'" using MPLEX_TURN_ON_DIGIT by (simp add: multiplexDisplay_def)
    have "mplex_inv ?s'" using wf sep al
      by (simp add: mplex_inv_def mplex_wf_def pins_separate_def select_fields
          dark_phase_def next_chosen_def)
    moreover have "sel_step s ?s'" using al d0 nx
      by (simp add: sel_step_def newly_selected_def)
    ultimately show ?thesis by (simp add: m)
  next
    case MPLEX_DISPLAY_DIGIT
    have "mplex_inv (s\<lparr>mplexState := MPLEX_IDLE\<rparr>)"
      using wf sep cur
      by (simp add: mplex_inv_def mplex_wf_def flds dark_phase_def next_chosen_def)
    moreover have "sel_step s (s\<lparr>mplexState := MPLEX_IDLE\<rparr>)"
      by (rule sel_step_same) (simp_all add: flds)
    ultimately show ?thesis using MPLEX_DISPLAY_DIGIT by (simp add: multiplexDisplay_def)
  qed
qed

lemma update_Multi_step:
  assumes inv: "mplex_inv s"
  shows "mplex_inv (update_Multi t s) \<and> sel_step s (update_Multi t s)"
proof -
  let ?s1 = "update_7Segment t s"
  from inv have sep: "pins_separate s" and len: "length (digitPins s) = 3"
    by (simp_all add: mplex_inv_def mplex_wf_def)
  note fr = update_7Segment_frame[where s=s and t=t]
  have inv1: "mplex_inv ?s1" by (rule frame_mplex_inv[OF fr inv])
  have al1: "active_lines ?s1 = active_lines s" by (rule frame_active_lines[OF fr sep len])
  have cd1: "currentDigit ?s1 = currentDigit s" by (rule multi_fields(6)[OF fr(2)])
  have s1: "sel_step s ?s1" using al1 cd1 by (simp add: sel_step_def newly_selected_same)
  have s2: "sel_step s (multiplexDisplay t ?s1)"
    using mplex_step[OF inv1, of t] al1 cd1 by (simp add: sel_step_def newly_selected_def)
  show ?thesis using inv1 s1 s2 mplex_step[OF inv1, of t]
    by (simp add: update_Multi_def Let_def)
qed

lemma run_Multi_inv: "mplex_inv s \<Longrightarrow> mplex_inv (run_Multi ts s)"
  by (induction ts arbitrary: s) (simp_all add: update_Multi_step)



text \<open>The invariant holds once \<open>begin\<close> has run on a display with separate pins.\<close>

lemma begin_Multi_inv:
  assumes d: "distinct [d1, d2, d3]"
    and sep: "{d1, d2, d3} \<inter> {dp, cp, sp, 255} = {}"
  shows "mplex_inv (begin_Multi t (NJU3711_7Segment_Multi_ctor3 dp cp sp d1 d2 d3 mode m))"
  using d sep
  apply (simp add: mplex_inv_def mplex_wf_def pins_separate_def dark_phase_def next_chosen_def
      active_lines_def upt3 begin_Multi_def NJU3711_7Segment_Multi_ctor3_def Multi_fields_def
      NJU3711_7Segment_ctor3_def NJU3711_ctor3_def begin_NJU3711_def clear_def
      enqueueOperation_def digitalWrite_def Let_def)
  done

subsection \<open>C5: the refresh write\<close>

lemma multiplex_keeps_patterns:
  "digitData (multiplexDisplay t s) = digitData s \<and>
   digitDP (multiplexDisplay t s) = digitDP s \<and>
   digitEnabled (multiplexDisplay t s) = digitEnabled s"
proof (cases "mplexState s")
  case MPLEX_WRITE_DATA
  then show ?thesis
    using multi_fields(2,3,4)[OF write_multi_fields, of _ s]
    by (simp add: multiplexDisplay_def Let_def)
qed (simp_all add: multiplexDisplay_def deselect_fields select_fields)

lemma idle_write_queue:
  assumes qwf: "queue_wf s" and nb: "\<not> isBusy s"
  shows "queue_list (snd (NJU3711_write v s)) = [(NJU3711_OP_WRITE, v)]"
proof -
  from nb have st: "state s = NJU3711_IDLE" and q0: "queueSize s = 0"
    by (simp_all add: isBusy_def word_gt_0)
  have nf: "\<not> queueSize s \<ge> 8" using q0 by simp
  from enqueue_list[OF qwf nf, of NJU3711_OP_WRITE v] st q0
  show ?thesis by (simp add: NJU3711_write_def queue_list_empty)
qed

lemma queue_list_mplex_fields:
  "queue_list (s\<lparr>mplexState := m, lastStateTime := l\<rparr>) = queue_list s"
  by (simp add: queue_list_def)

text \<open>
  Claim C5, as amended. When the blanking time has elapsed the next slot is
  (current + 1) mod 3, whether or not that slot is enabled. The refresh then submits one
  write to the idle engine. For an enabled slot it carries the slot's pattern (with bit 0
  set when the decimal point is on) in the display mode's encoding; for a disabled slot it
  carries the all-zero pattern in the display mode's encoding, which is 0x00 in
  \<open>ACTIVE_HIGH\<close> mode and 0xFF in \<open>ACTIVE_LOW\<close> mode, the default. The refresh changes no
  stored pattern, and disabling a slot changes no stored pattern and no other slot's
  enabled flag.
\<close>

theorem refresh_write_for_next_slot:
  assumes wf: "mplex_wf s" and qwf: "queue_wf s"
  shows
   "(mplexState s = MPLEX_WAIT_BLANKING \<and> t - lastStateTime s \<ge> blankingTime s \<longrightarrow>
       unat (nextDigit (multiplexDisplay t s)) = (unat (currentDigit s) + 1) mod 3 \<and>
       mplexState (multiplexDisplay t s) = MPLEX_WRITE_DATA) \<and>
    (mplexState s = MPLEX_WRITE_DATA \<and> \<not> isBusy s \<longrightarrow>
       queue_list (multiplexDisplay t s) =
         [(NJU3711_OP_WRITE,
           if digitEnabled s ! unat (nextDigit s)
           then applyDisplayMode
                  (if digitDP s ! unat (nextDigit s) then digitData s ! unat (nextDigit s) OR 1
                   else digitData s ! unat (nextDigit s)) s
           else if displayMode s = ACTIVE_LOW then 0xFF else 0x00)]) \<and>
    digitData (multiplexDisplay t s) = digitData s \<and>
    digitData (snd (disableDigit p s)) = digitData s \<and>
    (\<forall>i. i \<noteq> unat p \<longrightarrow> digitEnabled (snd (disableDigit p s)) ! i = digitEnabled s ! i) \<and>
    (p < 3 \<longrightarrow> \<not> digitEnabled (snd (disableDigit p s)) ! unat p)"
proof -
  have a: "mplexState s = MPLEX_WAIT_BLANKING \<and> t - lastStateTime s \<ge> blankingTime s \<longrightarrow>
       unat (nextDigit (multiplexDisplay t s)) = (unat (currentDigit s) + 1) mod 3 \<and>
       mplexState (multiplexDisplay t s) = MPLEX_WRITE_DATA"
    by (simp add: multiplexDisplay_def unat_mod3)
  have b: "mplexState s = MPLEX_WRITE_DATA \<and> \<not> isBusy s \<longrightarrow>
       queue_list (multiplexDisplay t s) =
         [(NJU3711_OP_WRITE,
           if digitEnabled s ! unat (nextDigit s)
           then applyDisplayMode
                  (if digitDP s ! unat (nextDigit s) then digitData s ! unat (nextDigit s) OR 1
                   else digitData s ! unat (nextDigit s)) s
           else if displayMode s = ACTIVE_LOW then 0xFF else 0x00)]"
  proof
    assume h: "mplexState s = MPLEX_WRITE_DATA \<and> \<not> isBusy s"
    then have nb: "\<not> isBusy s" by simp
    note q = idle_write_queue[OF qwf nb]
    show "queue_list (multiplexDisplay t s) =
         [(NJU3711_OP_WRITE,
           if digitEnabled s ! unat (nextDigit s)
           then applyDisplayMode
                  (if digitDP s ! unat (nextDigit s) then digitData s ! unat (nextDigit s) OR 1
                   else digitData s ! unat (nextDigit s)) s
           else if displayMode s = ACTIVE_LOW then 0xFF else 0x00)]"
      using h
      by (simp add: multiplexDisplay_def Let_def queue_list_mplex_fields q
          applyDisplayMode_def getDisplayMode_def)
  qed
  have c: "digitData (multiplexDisplay t s) = digitData s"
    using multiplex_keeps_patterns by blast
  have d: "digitData (snd (disableDigit p s)) = digitData s"
    by (simp add: disableDigit_def enableDigit_def)
  have e: "\<forall>i. i \<noteq> unat p \<longrightarrow> digitEnabled (snd (disableDigit p s)) ! i = digitEnabled s ! i"
    by (simp add: disableDigit_def enableDigit_def)
  have f: "p < 3 \<longrightarrow> \<not> digitEnabled (snd (disableDigit p s)) ! unat p"
  proof
    assume p: "p < 3"
    then have "\<not> p \<ge> 3" by simp
    moreover from p have "unat p < 3" by (simp add: word_less_nat_alt)
    ultimately show "\<not> digitEnabled (snd (disableDigit p s)) ! unat p"
      using wf by (simp add: disableDigit_def enableDigit_def mplex_wf_def)
  qed
  from a b c d e f show ?thesis by blast
qed

text \<open>
  The claim as stated fails in the default mode: the write for the disabled slot 1 of an
  \<open>ACTIVE_LOW\<close> display carries 0xFF.
\<close>

lemma writing_display_facts:
  "mplex_wf writing_display" "queue_wf writing_display"
  "mplexState writing_display = MPLEX_WRITE_DATA \<and> \<not> isBusy writing_display"
  "\<not> digitEnabled writing_display ! unat (nextDigit writing_display)"
  "displayMode writing_display = ACTIVE_LOW"
  "nextDigit writing_display = 1"
  by code_simp+

theorem disabled_slot_write_counterexample:
  "mplexState writing_display = MPLEX_WRITE_DATA \<and> \<not> isBusy writing_display \<and>
   nextDigit writing_display = 1 \<and>
   \<not> digitEnabled writing_display ! unat (nextDigit writing_display) \<and>
   queue_list (multiplexDisplay 48000 writing_display) = [(NJU3711_OP_WRITE, 0xFF)]"
  by code_simp

theorem refresh_write_for_next_slot_witness:
  "mplex_wf blanking_display \<and> queue_wf blanking_display \<and>
   mplexState blanking_display = MPLEX_WAIT_BLANKING \<and>
   46000 - lastStateTime blanking_display \<ge> blankingTime blanking_display \<and>
   currentDigit blanking_display = 0 \<and>
   \<not> digitEnabled blanking_display ! 1 \<and>
   unat (nextDigit (multiplexDisplay 46000 blanking_display)) = 1 \<and>
   mplexState (multiplexDisplay 46000 blanking_display) = MPLEX_WRITE_DATA \<and>
   mplex_wf writing_display \<and> queue_wf writing_display \<and>
   mplexState writing_display = MPLEX_WRITE_DATA \<and> \<not> isBusy writing_display \<and>
   \<not> digitEnabled writing_display ! unat (nextDigit writing_display) \<and>
   displayMode writing_display = ACTIVE_LOW \<and>
   queue_list (multiplexDisplay 48000 writing_display) = [(NJU3711_OP_WRITE, 0xFF)] \<and>
   digitData (multiplexDisplay 48000 writing_display) = digitData writing_display \<and>
   digitData (snd (disableDigit 1 demo_display)) = digitData demo_display \<and>
   \<not> digitEnabled (snd (disableDigit 1 demo_display)) ! unat (1 :: 8 word)"
proof -
  have a: "mplex_wf blanking_display" "queue_wf blanking_display"
    "mplexState blanking_display = MPLEX_WAIT_BLANKING \<and>
     46000 - lastStateTime blanking_display \<ge> blankingTime blanking_display"
    "currentDigit blanking_display = 0" "\<not> digitEnabled blanking_display ! 1"
    by code_simp+
  have c: "mplex_wf demo_display" "queue_wf demo_display" "(1 :: 8 word) < 3" by code_simp+
  have m: "(unat (0 :: 8 word) + 1) mod 3 = 1" by simp
  note b = writing_display_facts
  note 1 = refresh_write_for_next_slot[OF a(1,2), of 46000, unfolded a(4) m]
  note 2 = refresh_write_for_next_slot[OF b(1,2), of 48000]
  note 3 = refresh_write_for_next_slot[OF c(1,2), of _ 1]
  from 2 b(3,4,5) have 4: "queue_list (multiplexDisplay 48000 writing_display) = [(NJU3711_OP_WRITE, 0xFF)]"
    by simp
  from 1 2 3 4 a b c show ?thesis by blast
qed

subsection \<open>C6: one full multiplex cycle\<close>







end
